theory Spec2Isabelle
  imports Complex_Main "HOL-Library.Sublist" "HOL-Library.Multiset"
begin

section \<open>The tabular data engine of SpreadsheetTable.tsx\<close>

text \<open>
  The development embeds the data engine of \<^verbatim>\<open>src/components/SpreadsheetTable.tsx\<close>:
  the row store held in the \<^verbatim>\<open>data\<close> state, the derived view \<^verbatim>\<open>processedData\<close>
  (filter, then sort), the search annotation, the selection and edit state, and the row and
  cell mutations. Every React state variable is a field of a state record, every handler a
  function from state to state, and every property of the component a field of a record of
  properties.
\<close>

subsection \<open>JavaScript numbers\<close>

text \<open>
  A JavaScript number is modelled by its mathematical value: a rational, one of the two
  infinities, or NaN. Rounding to binary64 is not modelled, so two distinct rationals are
  distinct numbers here; the two zeros are one value. Row ids, priority ranks, parsed
  amounts and the time values of dates are all numbers of this type.
\<close>

datatype jsnum = NaN | NegInf | Fin rat | PosInf

text \<open>The relational operator \<^verbatim>\<open>a < b\<close> on numbers: false as soon as one side is NaN.\<close>

fun num_lt :: "jsnum \<Rightarrow> jsnum \<Rightarrow> bool" where
  "num_lt NaN _ = False"
| "num_lt _ NaN = False"
| "num_lt NegInf NegInf = False"
| "num_lt NegInf _ = True"
| "num_lt (Fin a) NegInf = False"
| "num_lt (Fin a) (Fin b) = (a < b)"
| "num_lt (Fin a) PosInf = True"
| "num_lt PosInf _ = False"

text \<open>Strict equality \<^verbatim>\<open>a === b\<close> on numbers: NaN is not equal to itself.\<close>

definition strict_eq :: "jsnum \<Rightarrow> jsnum \<Rightarrow> bool" where
  "strict_eq a b = (a \<noteq> NaN \<and> a = b)"

text \<open>Addition \<^verbatim>\<open>a + b\<close> on numbers.\<close>

fun num_add :: "jsnum \<Rightarrow> jsnum \<Rightarrow> jsnum" where
  "num_add NaN _ = NaN"
| "num_add _ NaN = NaN"
| "num_add NegInf PosInf = NaN"
| "num_add PosInf NegInf = NaN"
| "num_add NegInf _ = NegInf"
| "num_add _ NegInf = NegInf"
| "num_add PosInf _ = PosInf"
| "num_add _ PosInf = PosInf"
| "num_add (Fin a) (Fin b) = Fin (a + b)"

text \<open>
  \<^verbatim>\<open>Math.max(...xs)\<close>: the largest argument, NaN as soon as one argument is NaN, and
  \<^verbatim>\<open>-Infinity\<close> when there is no argument at all.
\<close>

definition max2 :: "jsnum \<Rightarrow> jsnum \<Rightarrow> jsnum" where
  "max2 a b = (if a = NaN \<or> b = NaN then NaN else if num_lt a b then b else a)"

definition Math_max :: "jsnum list \<Rightarrow> jsnum" where
  "Math_max xs = foldl max2 NegInf xs"

text \<open>Truthiness of a number, as tested by \<^verbatim>\<open>if (rowId)\<close>: zero and NaN are falsy.\<close>

definition truthy_num :: "jsnum \<Rightarrow> bool" where
  "truthy_num a = (a \<noteq> NaN \<and> a \<noteq> Fin 0)"

subsection \<open>Strings\<close>

text \<open>
  Strings are lists of characters. The model is exact on ASCII text: \<^verbatim>\<open>toLowerCase\<close>
  maps the letters A to Z and leaves every other character alone, and the white space
  removed by \<^verbatim>\<open>trim\<close> and matched by \<^verbatim>\<open>\s\<close> is tab, line feed, vertical tab, form
  feed, carriage return and space.
\<close>

definition toLowerChar :: "char \<Rightarrow> char" where
  "toLowerChar c =
     (case map_of (zip ''ABCDEFGHIJKLMNOPQRSTUVWXYZ'' ''abcdefghijklmnopqrstuvwxyz'') c of
        Some d \<Rightarrow> d
      | None \<Rightarrow> c)"

definition toLowerCase :: "string \<Rightarrow> string" where
  "toLowerCase s = map toLowerChar s"

definition isWhiteSpace :: "char \<Rightarrow> bool" where
  "isWhiteSpace c = (c \<in> set [CHR 0x09, CHR 0x0A, CHR 0x0B, CHR 0x0C, CHR 0x0D, CHR '' ''])"

definition trim :: "string \<Rightarrow> string" where
  "trim s = rev (dropWhile isWhiteSpace (rev (dropWhile isWhiteSpace s)))"

text \<open>\<^verbatim>\<open>s.includes(t)\<close>: \<open>t\<close> occurs in \<open>s\<close> as a contiguous run of characters.\<close>

fun includes_str :: "string \<Rightarrow> string \<Rightarrow> bool" where
  "includes_str [] t = (t = [])"
| "includes_str (c # s) t = (prefix t (c # s) \<or> includes_str s t)"

subsection \<open>Rows\<close>

text \<open>
  A row follows the interface \<^verbatim>\<open>SpreadsheetRow\<close>: the numeric \<^verbatim>\<open>id\<close>, the nine
  built-in fields, which every row carries as strings, and the index signature, a map from
  further keys (the custom columns) to strings. The key \<^verbatim>\<open>id\<close> itself is not a string
  field of the model: a custom column whose key is \<^verbatim>\<open>id\<close> is outside it.
\<close>

record row =
  row_id :: jsnum
  jobRequest :: string
  submitted :: string
  status :: string
  submitter :: string
  url :: string
  assigned :: string
  priority :: string
  dueDate :: string
  estValue :: string
  extra :: "string \<rightharpoonup> string"

text \<open>\<^verbatim>\<open>row[field]\<close> for a string key; \<open>None\<close> is \<^verbatim>\<open>undefined\<close>.\<close>

definition getField :: "row \<Rightarrow> string \<Rightarrow> string option" where
  "getField r f =
     (if f = ''jobRequest'' then Some (jobRequest r)
      else if f = ''submitted'' then Some (submitted r)
      else if f = ''status'' then Some (status r)
      else if f = ''submitter'' then Some (submitter r)
      else if f = ''url'' then Some (url r)
      else if f = ''assigned'' then Some (assigned r)
      else if f = ''priority'' then Some (priority r)
      else if f = ''dueDate'' then Some (dueDate r)
      else if f = ''estValue'' then Some (estValue r)
      else extra r f)"

text \<open>\<^verbatim>\<open>{ ...row, [field]: value }\<close>: a copy of the row with one key set.\<close>

definition setField :: "row \<Rightarrow> string \<Rightarrow> string \<Rightarrow> row" where
  "setField r f v =
     (if f = ''jobRequest'' then r\<lparr>jobRequest := v\<rparr>
      else if f = ''submitted'' then r\<lparr>submitted := v\<rparr>
      else if f = ''status'' then r\<lparr>status := v\<rparr>
      else if f = ''submitter'' then r\<lparr>submitter := v\<rparr>
      else if f = ''url'' then r\<lparr>url := v\<rparr>
      else if f = ''assigned'' then r\<lparr>assigned := v\<rparr>
      else if f = ''priority'' then r\<lparr>priority := v\<rparr>
      else if f = ''dueDate'' then r\<lparr>dueDate := v\<rparr>
      else if f = ''estValue'' then r\<lparr>estValue := v\<rparr>
      else r\<lparr>extra := (extra r)(f \<mapsto> v)\<rparr>)"

text \<open>\<^verbatim>\<open>String(row[field] || '')\<close>: the stringified value of a cell.\<close>

definition cellString :: "row \<Rightarrow> string \<Rightarrow> string" where
  "cellString r f = (case getField r f of None \<Rightarrow> [] | Some s \<Rightarrow> s)"

subsection \<open>The row store\<close>

text \<open>
  The key of a custom column: \<^verbatim>\<open>col.toLowerCase().replace(/\s+/g, '')\<close>.
\<close>

definition fieldName :: "string \<Rightarrow> string" where
  "fieldName col = filter (\<lambda>c. \<not> isWhiteSpace c) (toLowerCase col)"

text \<open>
  The row built by \<^verbatim>\<open>addRow\<close> and \<^verbatim>\<open>addRowAt\<close>. \<open>today\<close> is the value of
  \<^verbatim>\<open>new Date().toLocaleDateString('en-GB')\<close>, read from the clock.
\<close>

definition newRow :: "string \<Rightarrow> string list \<Rightarrow> jsnum \<Rightarrow> row" where
  "newRow today cols newId =
     fold (\<lambda>col r. setField r (fieldName col) [])
       cols
       \<lparr>row_id = newId, jobRequest = [], submitted = today, status = ''need to start'',
        submitter = [], url = [], assigned = [], priority = ''Medium'', dueDate = [],
        estValue = [], extra = Map.empty\<rparr>"

text \<open>\<^verbatim>\<open>Math.max(...data.map(row => row.id)) + 1\<close>\<close>

definition nextId :: "row list \<Rightarrow> jsnum" where
  "nextId rows = num_add (Math_max (map row_id rows)) (Fin 1)"

definition addRow :: "string \<Rightarrow> string list \<Rightarrow> row list \<Rightarrow> row list" where
  "addRow today cols rows = rows @ [newRow today cols (nextId rows)]"

text \<open>
  \<^verbatim>\<open>addRowAt(position)\<close>: \<^verbatim>\<open>splice(position, 0, newRow)\<close> when the position is given
  and below the length, an append otherwise.
\<close>

definition addRowAt :: "string \<Rightarrow> string list \<Rightarrow> nat option \<Rightarrow> row list \<Rightarrow> row list" where
  "addRowAt today cols position rows =
     (let r = newRow today cols (nextId rows) in
      case position of
        Some p \<Rightarrow> if p < length rows then take p rows @ r # drop p rows else rows @ [r]
      | None \<Rightarrow> rows @ [r])"

text \<open>\<^verbatim>\<open>data.filter(row => row.id !== rowId)\<close>\<close>

definition deleteRow :: "jsnum \<Rightarrow> row list \<Rightarrow> row list" where
  "deleteRow rowId rows = filter (\<lambda>r. \<not> strict_eq (row_id r) rowId) rows"

text \<open>
  \<^verbatim>\<open>duplicateRow(rowId)\<close>: the first row with that id, when there is one, is copied
  under a fresh id and appended; otherwise nothing happens.
\<close>

definition duplicateRow :: "jsnum \<Rightarrow> row list \<Rightarrow> row list" where
  "duplicateRow rowId rows =
     (case find (\<lambda>r. strict_eq (row_id r) rowId) rows of
        Some rowToDuplicate \<Rightarrow> rows @ [rowToDuplicate\<lparr>row_id := nextId rows\<rparr>]
      | None \<Rightarrow> rows)"

subsection \<open>Batch operations on the row store\<close>

text \<open>
  A multi-selected cell is stored as the string \<^verbatim>\<open>`${row.id}-${colIndex}`\<close>; the model
  keeps the pair. \<^verbatim>\<open>handleBatchAction\<close> reads the row id back with
  \<^verbatim>\<open>parseInt(cellId.split('-')[0])\<close>: for a non-negative id this is its integer part
  (ids are rendered in plain decimal notation), and for a negative or infinite id the first
  piece is empty or not a numeral, so the result is NaN.
\<close>

definition parseRowId :: "jsnum \<Rightarrow> jsnum" where
  "parseRowId n = (case n of Fin q \<Rightarrow> if 0 \<le> q then Fin (of_int \<lfloor>q\<rfloor>) else NaN | _ \<Rightarrow> NaN)"

text \<open>\<^verbatim>\<open>Array.from(new Set(selectedRowIds))\<close>: first occurrences, in order.\<close>

definition uniqueRowIds :: "(jsnum \<times> nat) list \<Rightarrow> jsnum list" where
  "uniqueRowIds cells = rev (remdups (rev (map (\<lambda>cell. parseRowId (fst cell)) cells)))"

definition batchDelete :: "(jsnum \<times> nat) list \<Rightarrow> row list \<Rightarrow> row list" where
  "batchDelete cells rows = filter (\<lambda>r. row_id r \<notin> set (uniqueRowIds cells)) rows"

text \<open>
  The copies of a batch duplication: the copy of the row at position \<open>i\<close> of
  \<^verbatim>\<open>rowsToDuplicate\<close> gets the id \<^verbatim>\<open>Math.max(...) + i + 1\<close> (the rows of the store are
  distinct objects, so \<^verbatim>\<open>indexOf\<close> returns the position).
\<close>

definition batchDuplicate :: "(jsnum \<times> nat) list \<Rightarrow> row list \<Rightarrow> row list" where
  "batchDuplicate cells rows =
     (let rowsToDuplicate = filter (\<lambda>r. row_id r \<in> set (uniqueRowIds cells)) rows;
          newRows = map (\<lambda>(i, r). r\<lparr>row_id :=
                      num_add (num_add (Math_max (map row_id rows)) (Fin (of_nat i))) (Fin 1)\<rparr>)
                    (enumerate 0 rowsToDuplicate)
      in rows @ newRows)"

text \<open>The row operations, and a run of them from a given store.\<close>

datatype rowOp =
    OpAddRow
  | OpAddRowAt "nat option"
  | OpDuplicateRow jsnum
  | OpBatchDuplicate "(jsnum \<times> nat) list"
  | OpDeleteRow jsnum
  | OpBatchDelete "(jsnum \<times> nat) list"

fun applyOp :: "string \<Rightarrow> string list \<Rightarrow> row list \<Rightarrow> rowOp \<Rightarrow> row list" where
  "applyOp today cols rows OpAddRow = addRow today cols rows"
| "applyOp today cols rows (OpAddRowAt position) = addRowAt today cols position rows"
| "applyOp today cols rows (OpDuplicateRow rowId) = duplicateRow rowId rows"
| "applyOp today cols rows (OpBatchDuplicate cells) = batchDuplicate cells rows"
| "applyOp today cols rows (OpDeleteRow rowId) = deleteRow rowId rows"
| "applyOp today cols rows (OpBatchDelete cells) = batchDelete cells rows"

definition runOps :: "string \<Rightarrow> string list \<Rightarrow> rowOp list \<Rightarrow> row list \<Rightarrow> row list" where
  "runOps today cols ops rows = foldl (applyOp today cols) rows ops"

subsection \<open>The properties of the component\<close>

datatype SortField =
  SortSubmitted | SortStatus | SortSubmitter | SortPriority | SortDueDate | SortEstValue

datatype FilterField =
    FilterStatus | FilterPriority | FilterSubmitter | FilterAssigned
  | FilterSubmitted | FilterDueDate | FilterEstValue

datatype SortOrder = Asc | Desc

record props =
  hiddenFields :: "string list"
  sortField :: "SortField option"
  sortOrder :: "SortOrder option"
  filterField :: "FilterField option"
  filterValue :: string
  searchTerm :: string

text \<open>\<^verbatim>\<open>row[sortField]\<close> and \<^verbatim>\<open>row[filterField]\<close> for the keys of the two union types.\<close>

fun sortFieldOf :: "SortField \<Rightarrow> row \<Rightarrow> string" where
  "sortFieldOf SortSubmitted r = submitted r"
| "sortFieldOf SortStatus r = status r"
| "sortFieldOf SortSubmitter r = submitter r"
| "sortFieldOf SortPriority r = priority r"
| "sortFieldOf SortDueDate r = dueDate r"
| "sortFieldOf SortEstValue r = estValue r"

fun filterFieldOf :: "FilterField \<Rightarrow> row \<Rightarrow> string" where
  "filterFieldOf FilterStatus r = status r"
| "filterFieldOf FilterPriority r = priority r"
| "filterFieldOf FilterSubmitter r = submitter r"
| "filterFieldOf FilterAssigned r = assigned r"
| "filterFieldOf FilterSubmitted r = submitted r"
| "filterFieldOf FilterDueDate r = dueDate r"
| "filterFieldOf FilterEstValue r = estValue r"

subsection \<open>The filter stage\<close>

text \<open>The predicate of \<^verbatim>\<open>filtered.filter(row => ...)\<close>.\<close>

definition rowPasses :: "FilterField \<Rightarrow> string \<Rightarrow> row \<Rightarrow> bool" where
  "rowPasses ff fv r =
     (let cellValue = toLowerCase (filterFieldOf ff r) in
      if ff = FilterSubmitted \<or> ff = FilterDueDate
      then cellValue = toLowerCase fv
      else includes_str cellValue (toLowerCase fv))"

text \<open>\<^verbatim>\<open>if (filterField && filterValue)\<close>: a field is set and the value is not empty.\<close>

definition filterRows :: "props \<Rightarrow> row list \<Rightarrow> row list" where
  "filterRows p rows =
     (case filterField p of
        Some ff \<Rightarrow> if filterValue p \<noteq> [] then filter (rowPasses ff (filterValue p)) rows else rows
      | None \<Rightarrow> rows)"

subsection \<open>Sort values\<close>

text \<open>\<^verbatim>\<open>s.split('-')\<close> and \<^verbatim>\<open>pieces.join('-')\<close>.\<close>

fun split_on :: "char \<Rightarrow> string \<Rightarrow> string list" where
  "split_on sep [] = [[]]"
| "split_on sep (c # s) =
     (if c = sep then [] # split_on sep s
      else (case split_on sep s of [] \<Rightarrow> [[c]] | piece # pieces \<Rightarrow> (c # piece) # pieces))"

fun join_with :: "string \<Rightarrow> string list \<Rightarrow> string" where
  "join_with sep [] = []"
| "join_with sep [piece] = piece"
| "join_with sep (piece # pieces) = piece @ sep @ join_with sep pieces"

text \<open>\<^verbatim>\<open>aValue.split('-').reverse().join('-')\<close>: day-month-year turned round.\<close>

definition reverseDate :: "string \<Rightarrow> string" where
  "reverseDate s = join_with ''-'' (rev (split_on (CHR ''-'') s))"

text \<open>
  \<^verbatim>\<open>parseFloat\<close>: leading white space is skipped, then the longest prefix that is a
  decimal literal (sign, \<^verbatim>\<open>Infinity\<close> or digits with an optional fraction and an optional
  exponent) gives the value; without such a prefix the result is NaN.
\<close>

definition isDigit :: "char \<Rightarrow> bool" where
  "isDigit c = (c \<in> set ''0123456789'')"

definition digitValue :: "char \<Rightarrow> nat" where
  "digitValue c =
     (case map_of (zip ''0123456789'' [0, 1, 2, 3, 4, 5, 6, 7, 8, 9]) c of
        Some d \<Rightarrow> d
      | None \<Rightarrow> 0)"

definition digitsValue :: "string \<Rightarrow> nat" where
  "digitsValue ds = foldl (\<lambda>a c. 10 * a + digitValue c) 0 ds"

definition scale10 :: "rat \<Rightarrow> int \<Rightarrow> rat" where
  "scale10 m e = (if 0 \<le> e then m * 10 ^ nat e else m / 10 ^ nat (- e))"

text \<open>An exponent part needs at least one digit; without one the exponent is absent.\<close>

definition exponentPart :: "string \<Rightarrow> int" where
  "exponentPart s =
     (case s of
        [] \<Rightarrow> 0
      | c # t \<Rightarrow>
          if c = CHR ''e'' \<or> c = CHR ''E'' then
            (case t of
               [] \<Rightarrow> 0
             | d # u \<Rightarrow>
                 if d = CHR ''+'' then int (digitsValue (takeWhile isDigit u))
                 else if d = CHR ''-'' then - int (digitsValue (takeWhile isDigit u))
                 else int (digitsValue (takeWhile isDigit t)))
          else 0)"

definition unsignedDecimal :: "string \<Rightarrow> jsnum" where
  "unsignedDecimal s =
     (if prefix ''Infinity'' s then PosInf
      else
        let ip = takeWhile isDigit s; r1 = dropWhile isDigit s in
        if r1 \<noteq> [] \<and> hd r1 = CHR ''.'' then
          (let fp = takeWhile isDigit (tl r1); r2 = dropWhile isDigit (tl r1) in
           if ip = [] \<and> fp = [] then NaN
           else Fin (scale10 (of_nat (digitsValue (ip @ fp))) (exponentPart r2 - int (length fp))))
        else if ip = [] then NaN
        else Fin (scale10 (of_nat (digitsValue ip)) (exponentPart r1)))"

fun num_neg :: "jsnum \<Rightarrow> jsnum" where
  "num_neg NaN = NaN"
| "num_neg NegInf = PosInf"
| "num_neg (Fin a) = Fin (- a)"
| "num_neg PosInf = NegInf"

definition parseFloat :: "string \<Rightarrow> jsnum" where
  "parseFloat s =
     (let t = dropWhile isWhiteSpace s in
      case t of
        [] \<Rightarrow> NaN
      | c # u \<Rightarrow>
          if c = CHR ''-'' then num_neg (unsignedDecimal u)
          else if c = CHR ''+'' then unsignedDecimal u
          else unsignedDecimal t)"

text \<open>\<^verbatim>\<open>n || 0\<close> on a number: NaN and zero give zero.\<close>

definition or_zero :: "jsnum \<Rightarrow> jsnum" where
  "or_zero n = (if truthy_num n then n else Fin 0)"

text \<open>\<^verbatim>\<open>parseFloat(String(aValue).replace(/,/g, '')) || 0\<close>\<close>

definition estNumber :: "string \<Rightarrow> jsnum" where
  "estNumber s = or_zero (parseFloat (filter (\<lambda>c. c \<noteq> CHR '','') s))"

text \<open>
  \<^verbatim>\<open>priorityOrder[aValue] || 0\<close> for the table \<^verbatim>\<open>{ 'High': 3, 'Medium': 2, 'Low': 1 }\<close>
  (a priority that names a property of \<^verbatim>\<open>Object.prototype\<close> is outside the model).
\<close>

definition priorityOrder :: "string \<rightharpoonup> jsnum" where
  "priorityOrder = [''High'' \<mapsto> Fin 3, ''Medium'' \<mapsto> Fin 2, ''Low'' \<mapsto> Fin 1]"

definition priorityRank :: "string \<Rightarrow> jsnum" where
  "priorityRank s = (case priorityOrder s of Some n \<Rightarrow> or_zero n | None \<Rightarrow> Fin 0)"

text \<open>
  The value a row is compared on. \<open>newDate\<close> gives the time value of \<^verbatim>\<open>new Date(s)\<close>
  (NaN for an invalid date); it is a parameter, since the strings a JavaScript engine accepts
  as dates are not fixed by the language.
\<close>

datatype sortval = NumVal jsnum | StrVal string

definition sortValue :: "(string \<Rightarrow> jsnum) \<Rightarrow> SortField \<Rightarrow> row \<Rightarrow> sortval" where
  "sortValue newDate sf r =
     (let v = sortFieldOf sf r in
      if sf = SortSubmitted \<or> sf = SortDueDate then NumVal (newDate (reverseDate v))
      else if sf = SortEstValue then NumVal (estNumber v)
      else if sf = SortPriority then NumVal (priorityRank v)
      else StrVal (toLowerCase v))"

text \<open>\<^verbatim>\<open>a < b\<close> on strings: lexicographic on the character codes.\<close>

fun str_lt :: "string \<Rightarrow> string \<Rightarrow> bool" where
  "str_lt [] [] = False"
| "str_lt [] (b # bs) = True"
| "str_lt (a # as) [] = False"
| "str_lt (a # as) (b # bs) =
     (if (of_char a :: nat) < of_char b then True
      else if (of_char b :: nat) < of_char a then False
      else str_lt as bs)"

text \<open>
  \<^verbatim>\<open>aValue < bValue\<close> on two sort values; both come from the same branch, so the mixed
  cases do not arise.
\<close>

fun val_lt :: "sortval \<Rightarrow> sortval \<Rightarrow> bool" where
  "val_lt (NumVal a) (NumVal b) = num_lt a b"
| "val_lt (StrVal a) (StrVal b) = str_lt a b"
| "val_lt _ _ = False"

text \<open>The comparator handed to \<^verbatim>\<open>filtered.sort\<close>.\<close>

definition compareRows :: "(string \<Rightarrow> jsnum) \<Rightarrow> SortField \<Rightarrow> SortOrder \<Rightarrow> row \<Rightarrow> row \<Rightarrow> int" where
  "compareRows newDate sf so a b =
     (let aValue = sortValue newDate sf a; bValue = sortValue newDate sf b in
      if val_lt aValue bValue then (if so = Asc then - 1 else 1)
      else if val_lt bValue aValue then (if so = Asc then 1 else - 1)
      else 0)"

text \<open>
  \<^verbatim>\<open>Array.prototype.sort\<close> with a comparator. The language fixes the result only when
  the comparator is a consistent ordering of the elements: it is then the stably sorted
  list. For any other comparator the order is left to the engine. The model follows V8
  (Chrome, Node.js) on an array of fewer than 64 elements: the longest run at the start of
  the array is taken, ascending or strictly descending as its first two elements are, and
  reversed when descending; every further element is then inserted into the sorted part at
  the place a binary search finds. Longer arrays are cut into such runs, which V8 merges;
  with a consistent comparator the result is the same list.
\<close>

function bsearch :: "('a \<Rightarrow> 'a \<Rightarrow> int) \<Rightarrow> 'a \<Rightarrow> 'a list \<Rightarrow> nat \<Rightarrow> nat \<Rightarrow> nat" where
  "bsearch cmp pivot work left right =
     (if left < right then
        (let mid = left + (right - left) div 2 in
         if cmp pivot (work ! mid) < 0 then bsearch cmp pivot work left mid
         else bsearch cmp pivot work (mid + 1) right)
      else left)"
  by pat_completeness auto
termination
  by (relation "measure (\<lambda>(cmp, pivot, work, left, right). right - left)") auto

declare bsearch.simps [simp del]

text \<open>
  The step of the binary insertion sort: the pivot goes behind every element of the sorted
  part that the search found not greater than it.
\<close>

definition binaryInsert :: "('a \<Rightarrow> 'a \<Rightarrow> int) \<Rightarrow> 'a list \<Rightarrow> 'a \<Rightarrow> 'a list" where
  "binaryInsert cmp work pivot =
     (let left = bsearch cmp pivot work 0 (length work)
      in take left work @ pivot # drop left work)"

text \<open>
  The number of elements that continue the run behind its first two: a descending run
  goes on while the next element compares less than the one before, an ascending run while
  it does not.
\<close>

fun countRun :: "('a \<Rightarrow> 'a \<Rightarrow> int) \<Rightarrow> bool \<Rightarrow> 'a \<Rightarrow> 'a list \<Rightarrow> nat" where
  "countRun cmp isDescending previous [] = 0"
| "countRun cmp isDescending previous (current # rest) =
     (if (if isDescending then cmp current previous < 0 else 0 \<le> cmp current previous)
      then Suc (countRun cmp isDescending current rest)
      else 0)"

fun Array_sort :: "('a \<Rightarrow> 'a \<Rightarrow> int) \<Rightarrow> 'a list \<Rightarrow> 'a list" where
  "Array_sort cmp [] = []"
| "Array_sort cmp [x] = [x]"
| "Array_sort cmp (x0 # x1 # rest) =
     (let isDescending = cmp x1 x0 < 0;
          runLength = 2 + countRun cmp isDescending x1 rest;
          run = take runLength (x0 # x1 # rest);
          work = (if isDescending then rev run else run)
      in foldl (binaryInsert cmp) work (drop runLength (x0 # x1 # rest)))"

text \<open>
  A comparator is a consistent ordering of a set of elements when exchanging the arguments
  exchanges less and greater, and not-greater is transitive.
\<close>

definition consistent_on :: "'a set \<Rightarrow> ('a \<Rightarrow> 'a \<Rightarrow> int) \<Rightarrow> bool" where
  "consistent_on S cmp =
     ((\<forall>x \<in> S. \<forall>y \<in> S. (cmp x y < 0) = (0 < cmp y x))
      \<and> (\<forall>x \<in> S. \<forall>y \<in> S. \<forall>z \<in> S. cmp x y \<le> 0 \<longrightarrow> cmp y z \<le> 0 \<longrightarrow> cmp x z \<le> 0))"

subsection \<open>The processed view\<close>

definition processedData :: "(string \<Rightarrow> jsnum) \<Rightarrow> props \<Rightarrow> row list \<Rightarrow> row list" where
  "processedData newDate p rows =
     (let filtered = filterRows p rows in
      case sortField p of
        None \<Rightarrow> filtered
      | Some sf \<Rightarrow>
          (case sortOrder p of
             None \<Rightarrow> filtered
           | Some so \<Rightarrow> Array_sort (compareRows newDate sf so) filtered))"

subsection \<open>Columns\<close>

text \<open>The keys of the built-in columns, the array \<^verbatim>\<open>fields\<close>.\<close>

definition fields_builtin :: "string list" where
  "fields_builtin = [''jobRequest'', ''submitted'', ''status'', ''submitter'', ''url'', ''assigned'',
                     ''priority'', ''dueDate'', ''estValue'']"

definition allFields :: "string list \<Rightarrow> string list" where
  "allFields cols = fields_builtin @ map fieldName cols"

text \<open>\<^verbatim>\<open>allFields.filter(field => !hiddenFields.includes(field))\<close>\<close>

definition visibleFields :: "props \<Rightarrow> string list \<Rightarrow> string list" where
  "visibleFields p cols = filter (\<lambda>field. field \<notin> set (hiddenFields p)) (allFields cols)"

text \<open>
  \<^verbatim>\<open>visibleFields[colIndex]\<close> used as a property key: beyond the end of the array the
  value is \<^verbatim>\<open>undefined\<close>, and the key it names is the string \<^verbatim>\<open>undefined\<close>.
\<close>

definition fieldAt :: "string list \<Rightarrow> nat \<Rightarrow> string" where
  "fieldAt vf colIndex = (if colIndex < length vf then vf ! colIndex else ''undefined'')"

subsection \<open>Search\<close>

definition cellMatchesSearch :: "props \<Rightarrow> row \<Rightarrow> string \<Rightarrow> bool" where
  "cellMatchesSearch p r field =
     (if trim (searchTerm p) = [] then False
      else includes_str (toLowerCase (cellString r field)) (toLowerCase (searchTerm p)))"

text \<open>The two nested \<^verbatim>\<open>forEach\<close> loops of \<^verbatim>\<open>searchResultsCount\<close>.\<close>

definition searchResultsCount :: "props \<Rightarrow> row list \<Rightarrow> string list \<Rightarrow> nat" where
  "searchResultsCount p view vf =
     (if trim (searchTerm p) = [] then 0
      else fold (\<lambda>r count.
                   fold (\<lambda>field count. if cellMatchesSearch p r field then count + 1 else count)
                     vf count)
             view 0)"

subsection \<open>The state of the component\<close>

text \<open>
  The React state: the row store, the single selection, the multi-selection, the edit
  session with its draft, the custom columns and the multi-select flag. A cell is a pair of
  a row id and a column index.
\<close>

record state =
  data :: "row list"
  selectedCell :: "(jsnum \<times> nat) option"
  selectedCells :: "(jsnum \<times> nat) list"
  editingCell :: "(jsnum \<times> nat) option"
  editValue :: string
  customColumns :: "string list"
  isMultiSelect :: bool

definition getCellValue :: "(string \<Rightarrow> jsnum) \<Rightarrow> props \<Rightarrow> state \<Rightarrow> jsnum \<Rightarrow> nat \<Rightarrow> string" where
  "getCellValue newDate p st rowId colIndex =
     (case find (\<lambda>r. strict_eq (row_id r) rowId) (processedData newDate p (data st)) of
        None \<Rightarrow> []
      | Some dataRow \<Rightarrow> cellString dataRow (fieldAt (visibleFields p (customColumns st)) colIndex))"

definition setCellValue :: "props \<Rightarrow> jsnum \<Rightarrow> nat \<Rightarrow> string \<Rightarrow> state \<Rightarrow> state" where
  "setCellValue p rowId colIndex v st =
     (let field = fieldAt (visibleFields p (customColumns st)) colIndex in
      st\<lparr>data := map (\<lambda>r. if strict_eq (row_id r) rowId then setField r field v else r) (data st)\<rparr>)"

definition handleCellDoubleClick :: "(string \<Rightarrow> jsnum) \<Rightarrow> props \<Rightarrow> jsnum \<Rightarrow> nat \<Rightarrow> state \<Rightarrow> state" where
  "handleCellDoubleClick newDate p rowId colIndex st =
     (let cellValue = getCellValue newDate p st rowId colIndex in
      st\<lparr>editingCell := Some (rowId, colIndex),
         editValue := cellValue,
         selectedCell := Some (rowId, colIndex)\<rparr>)"

definition saveEdit :: "props \<Rightarrow> state \<Rightarrow> state" where
  "saveEdit p st =
     (case editingCell st of
        Some cell \<Rightarrow>
          (setCellValue p (fst cell) (snd cell) (editValue st) st)\<lparr>editingCell := None, editValue := []\<rparr>
      | None \<Rightarrow> st)"

text \<open>The change handler of the edit control: \<^verbatim>\<open>setEditValue(e.target.value)\<close>.\<close>

definition setEditValue :: "string \<Rightarrow> state \<Rightarrow> state" where
  "setEditValue v st = st\<lparr>editValue := v\<rparr>"

definition clearCell :: "props \<Rightarrow> jsnum \<Rightarrow> nat \<Rightarrow> state \<Rightarrow> state" where
  "clearCell p rowId colIndex st =
     (let field = fieldAt (visibleFields p (customColumns st)) colIndex in
      st\<lparr>data := map (\<lambda>r. if strict_eq (row_id r) rowId then setField r field [] else r) (data st)\<rparr>)"

definition clearColumn :: "props \<Rightarrow> nat \<Rightarrow> state \<Rightarrow> state" where
  "clearColumn p colIndex st =
     (let field = fieldAt (visibleFields p (customColumns st)) colIndex in
      st\<lparr>data := map (\<lambda>r. setField r field []) (data st)\<rparr>)"

subsection \<open>Deleting rows from the component\<close>





subsection \<open>The outcome of an operation, and the specified row duplication\<close>

text \<open>
  The error kinds of the specification. No handler of the component throws or returns an
  error: \<^verbatim>\<open>duplicateRow\<close> returns after its \<^verbatim>\<open>if\<close> in either case, so its outcome is
  always a store.
\<close>

datatype error = RowNotFound | FieldNotFound | ProtectedColumn | DuplicateFieldKey

definition duplicateRow_outcome :: "jsnum \<Rightarrow> row list \<Rightarrow> error + row list" where
  "duplicateRow_outcome rowId rows = Inr (duplicateRow rowId rows)"

text \<open>
  The operation as the specification words it: it fails with \<open>RowNotFound\<close> when no row
  has the id, and otherwise appends a copy of the row under the id
  \<open>max(existing ids) + 1\<close>.
\<close>

definition spec_duplicateRow :: "jsnum \<Rightarrow> row list \<Rightarrow> error + row list" where
  "spec_duplicateRow rowId rows =
     (case find (\<lambda>r. strict_eq (row_id r) rowId) rows of
        None \<Rightarrow> Inl RowNotFound
      | Some r \<Rightarrow> Inr (rows @ [r\<lparr>row_id := num_add (Math_max (map row_id rows)) (Fin 1)\<rparr>]))"

subsection \<open>Sample data\<close>

text \<open>A row in the shape of the mock data, used where a concrete store is needed.\<close>

definition sampleRow :: "rat \<Rightarrow> row" where
  "sampleRow n =
     \<lparr>row_id = Fin n, jobRequest = ''Launch social media campaign'', submitted = ''15-11-2024'',
      status = ''in-progress'', submitter = ''Aisha Patel'', url = ''www.aishapatel.com'',
      assigned = ''Sophie Choudhury'', priority = ''Medium'', dueDate = ''20-11-2024'',
      estValue = ''6,200,000'', extra = Map.empty\<rparr>"

definition sampleProps :: props where
  "sampleProps =
     \<lparr>hiddenFields = [], sortField = None, sortOrder = None, filterField = None,
      filterValue = [], searchTerm = []\<rparr>"

subsection \<open>The specified filter predicate and search match\<close>


definition spec_ci_contains :: "string \<Rightarrow> string \<Rightarrow> bool" where
  "spec_ci_contains a b = sublist (toLowerCase b) (toLowerCase a)"




text \<open>
  The store of the specification's first example, with the amounts \<^verbatim>\<open>1,200\<close> and
  \<^verbatim>\<open>300\<close>, and the properties that sort by a given field in a given order.
\<close>

definition amountRows :: "row list" where
  "amountRows = [(sampleRow 1)\<lparr>estValue := ''1,200''\<rparr>, (sampleRow 2)\<lparr>estValue := ''300''\<rparr>]"

definition sortedBy :: "SortField \<Rightarrow> SortOrder \<Rightarrow> props" where
  "sortedBy sf so = sampleProps\<lparr>sortField := Some sf, sortOrder := Some so\<rparr>"

text \<open>A store with the priorities Medium, Low and Medium.\<close>

definition priorityRows :: "row list" where
  "priorityRows = [sampleRow 1, (sampleRow 2)\<lparr>priority := ''Low''\<rparr>, sampleRow 3]"

text \<open>A state over a store of two sample rows, with nothing selected or edited.\<close>

definition sampleState :: state where
  "sampleState =
     \<lparr>data = [sampleRow 1, sampleRow 2], selectedCell = None, selectedCells = [],
      editingCell = None, editValue = [], customColumns = [], isMultiSelect = False\<rparr>"



text \<open>The ids of a store are finite when each is a rational, not an infinity or NaN.\<close>

definition finite_ids :: "row list \<Rightarrow> bool" where
  "finite_ids rows = (\<forall>r \<in> set rows. \<exists>q. row_id r = Fin q)"

text \<open>
  The time values V8 gives to three ISO dates, and NaN for every other string, as for the
  empty one; and a store whose due dates are the 3rd and the 2nd of January 2024, empty (as
  \<^verbatim>\<open>addRow\<close> leaves it) and the 1st.
\<close>

definition sampleDate :: "string \<Rightarrow> jsnum" where
  "sampleDate s =
     (case map_of [(''2024-01-01'', Fin 1704067200000), (''2024-01-02'', Fin 1704153600000),
                   (''2024-01-03'', Fin 1704240000000)] s of
        Some t \<Rightarrow> t
      | None \<Rightarrow> NaN)"

definition dueRows :: "row list" where
  "dueRows =
     [(sampleRow 1)\<lparr>dueDate := ''03-01-2024''\<rparr>, (sampleRow 2)\<lparr>dueDate := ''02-01-2024''\<rparr>,
      (sampleRow 3)\<lparr>dueDate := []\<rparr>, (sampleRow 4)\<lparr>dueDate := ''01-01-2024''\<rparr>]"

text \<open>
  The state reached from the sample state by deleting both rows, adding a row, typing foo
  into the submitter cell of the new row, and adding a second row. \<open>sampleToday\<close> is the
  date the clock gives.
\<close>

definition sampleToday :: string where
  "sampleToday = ''02/11/2026''"

definition emptiedState :: state where
  "emptiedState =
     sampleState\<lparr>data := runOps sampleToday []
        [OpDeleteRow (Fin 1), OpDeleteRow (Fin 2), OpAddRow] (data sampleState)\<rparr>"

definition editedState :: state where
  "editedState =
     saveEdit sampleProps
       (setEditValue ''foo'' (handleCellDoubleClick sampleDate sampleProps NegInf 3 emptiedState))"

definition twinState :: state where
  "twinState = editedState\<lparr>data := runOps sampleToday [] [OpAddRow] (data editedState)\<rparr>"

text \<open>
  Two custom columns of the same name, as two calls of \<^verbatim>\<open>addColumn\<close> with the answer
  Notes leave them, and the properties that hide the first built-in field.
\<close>

definition notesState :: state where
  "notesState = sampleState\<lparr>customColumns := [''Notes'', ''Notes'']\<rparr>"

definition hideJobRequest :: props where
  "hideJobRequest = sampleProps\<lparr>hiddenFields := [''jobRequest'']\<rparr>"

section \<open>Facts about numbers and row ids\<close>

lemma strict_eq_simps [simp]:
  "strict_eq (Fin a) (Fin b) = (a = b)"
  "strict_eq NaN x = False"
  "strict_eq NegInf NegInf = True"
  "strict_eq (Fin a) NegInf = False"
  "strict_eq NegInf (Fin a) = False"
  by (simp_all add: strict_eq_def)

lemma row_id_sampleRow [simp]: "row_id (sampleRow n) = Fin n"
  by (simp add: sampleRow_def)

lemma find_row_cases:
  obtains (absent) "find (\<lambda>r. strict_eq (row_id r) rowId) rows = None"
      and "\<forall>r \<in> set rows. \<not> strict_eq (row_id r) rowId"
  | (present) r where "find (\<lambda>r. strict_eq (row_id r) rowId) rows = Some r"
      and "r \<in> set rows" and "strict_eq (row_id r) rowId"
proof (cases "find (\<lambda>r. strict_eq (row_id r) rowId) rows")
  case None
  then have "\<forall>r \<in> set rows. \<not> strict_eq (row_id r) rowId"
    by (auto simp: find_None_iff)
  with None show ?thesis by (rule absent)
next
  case (Some r)
  then have "r \<in> set rows" "strict_eq (row_id r) rowId"
    by (auto simp: find_Some_iff)
  with Some show ?thesis by (rule present)
qed

section \<open>Duplicating a row\<close>

text \<open>
  Claim C10. For a row id present in the store, \<^verbatim>\<open>duplicateRow\<close> appends the copy at the
  end of the row order, not next to the original: the new store is the old one followed by
  exactly one row, the copy of the first row with that id. Every earlier row therefore keeps
  its id, its field values and its position. For an id that no row carries, the store is
  returned as it was.
\<close>

theorem duplicateRow_frame:
  "(if \<exists>r \<in> set rows. strict_eq (row_id r) rowId
    then \<exists>r. find (\<lambda>r. strict_eq (row_id r) rowId) rows = Some r
           \<and> duplicateRow rowId rows = rows @ [r\<lparr>row_id := nextId rows\<rparr>]
           \<and> take (length rows) (duplicateRow rowId rows) = rows
           \<and> (\<forall>i < length rows. duplicateRow rowId rows ! i = rows ! i)
           \<and> length (duplicateRow rowId rows) = Suc (length rows)
    else duplicateRow rowId rows = rows)"
proof (cases rule: find_row_cases [where rowId = rowId and rows = rows])
  case absent
  then show ?thesis
    by (simp add: duplicateRow_def)
next
  case (present r)
  then have "duplicateRow rowId rows = rows @ [r\<lparr>row_id := nextId rows\<rparr>]"
    by (simp add: duplicateRow_def)
  with present show ?thesis
    by (auto simp: nth_append)
qed

theorem duplicateRow_frame_witness:
  "(\<exists>r \<in> set [sampleRow 1, sampleRow 2]. strict_eq (row_id r) (Fin 1))
   \<and> duplicateRow (Fin 1) [sampleRow 1, sampleRow 2]
       = [sampleRow 1, sampleRow 2, (sampleRow 1)\<lparr>row_id := Fin 3\<rparr>]
   \<and> \<not> (\<exists>r \<in> set [sampleRow 1, sampleRow 2]. strict_eq (row_id r) (Fin 7))
   \<and> duplicateRow (Fin 7) [sampleRow 1, sampleRow 2] = [sampleRow 1, sampleRow 2]"
  using duplicateRow_frame [of "[sampleRow 1, sampleRow 2]" "Fin 1"]
    duplicateRow_frame [of "[sampleRow 1, sampleRow 2]" "Fin 7"]
  by (simp add: nextId_def Math_max_def max2_def)

text \<open>
  Claim C8, as amended. For a row id that no row carries, \<^verbatim>\<open>duplicateRow\<close> does not fail:
  it completes and leaves the store as it was, where the specified operation fails with
  \<open>RowNotFound\<close>. For a row id present in the store, it does what the specification
  says: the store gains one row, equal to the first row with that id in every field value
  (the built-in fields and every custom key), carrying the id
  \<^verbatim>\<open>Math.max(...ids) + 1\<close>.
\<close>

theorem duplicateRow_absent_noop_present_copy:
  "(if \<exists>r \<in> set rows. strict_eq (row_id r) rowId
    then duplicateRow_outcome rowId rows = spec_duplicateRow rowId rows
       \<and> (\<exists>r \<in> set rows. strict_eq (row_id r) rowId
            \<and> duplicateRow rowId rows = rows @ [r\<lparr>row_id := nextId rows\<rparr>]
            \<and> (\<forall>f. getField (last (duplicateRow rowId rows)) f = getField r f)
            \<and> row_id (last (duplicateRow rowId rows))
                = num_add (Math_max (map row_id rows)) (Fin 1))
    else duplicateRow_outcome rowId rows = Inr rows
       \<and> spec_duplicateRow rowId rows = Inl RowNotFound)"
proof (cases rule: find_row_cases [where rowId = rowId and rows = rows])
  case absent
  then show ?thesis
    by (simp add: duplicateRow_outcome_def duplicateRow_def spec_duplicateRow_def)
next
  case (present r)
  then have dup: "duplicateRow rowId rows = rows @ [r\<lparr>row_id := nextId rows\<rparr>]"
    by (simp add: duplicateRow_def)
  have fields_kept: "getField (r\<lparr>row_id := nextId rows\<rparr>) f = getField r f" for f
    by (simp add: getField_def)
  from present have "duplicateRow_outcome rowId rows = spec_duplicateRow rowId rows"
    by (simp add: duplicateRow_outcome_def duplicateRow_def spec_duplicateRow_def nextId_def)
  moreover have "\<exists>r \<in> set rows. strict_eq (row_id r) rowId
            \<and> duplicateRow rowId rows = rows @ [r\<lparr>row_id := nextId rows\<rparr>]
            \<and> (\<forall>f. getField (last (duplicateRow rowId rows)) f = getField r f)
            \<and> row_id (last (duplicateRow rowId rows))
                = num_add (Math_max (map row_id rows)) (Fin 1)"
    using present dup fields_kept by (intro bexI [of _ r]) (simp_all add: nextId_def)
  ultimately show ?thesis
    using present by auto
qed

theorem duplicateRow_absent_noop_present_copy_witness:
  "(\<exists>r \<in> set [sampleRow 1, sampleRow 2]. strict_eq (row_id r) (Fin 2))
   \<and> duplicateRow_outcome (Fin 2) [sampleRow 1, sampleRow 2]
       = spec_duplicateRow (Fin 2) [sampleRow 1, sampleRow 2]
   \<and> \<not> (\<exists>r \<in> set [sampleRow 1, sampleRow 2]. strict_eq (row_id r) (Fin 7))
   \<and> duplicateRow_outcome (Fin 7) [sampleRow 1, sampleRow 2] = Inr [sampleRow 1, sampleRow 2]"
  using duplicateRow_absent_noop_present_copy [of "[sampleRow 1, sampleRow 2]" "Fin 2"]
    duplicateRow_absent_noop_present_copy [of "[sampleRow 1, sampleRow 2]" "Fin 7"]
  by simp

text \<open>
  The claim as the specification states it fails on the store with the single row 1 and the
  absent id 7: the specified operation fails with \<open>RowNotFound\<close>, the handler completes
  with the store unchanged.
\<close>

theorem duplicateRow_absent_counterexample:
  "spec_duplicateRow (Fin 7) [sampleRow 1] = Inl RowNotFound
   \<and> duplicateRow_outcome (Fin 7) [sampleRow 1] = Inr [sampleRow 1]
   \<and> duplicateRow_outcome (Fin 7) [sampleRow 1] \<noteq> Inl RowNotFound"
  by (simp add: spec_duplicateRow_def duplicateRow_outcome_def duplicateRow_def)

section \<open>Row ids\<close>

text \<open>
  Claim C1, at the input where the code breaks it. From the store with the single row 1,
  deleting that row and adding two rows gives two rows with the same id:
  \<^verbatim>\<open>Math.max()\<close> of no argument is \<^verbatim>\<open>-Infinity\<close>, so the first new row gets the id
  \<^verbatim>\<open>-Infinity\<close>, and \<^verbatim>\<open>-Infinity + 1\<close> is \<^verbatim>\<open>-Infinity\<close> again for the second.
\<close>

theorem row_ids_collide_after_emptying:
  "map row_id (runOps today [] [OpDeleteRow (Fin 1), OpAddRow, OpAddRow] [sampleRow 1])
     = [NegInf, NegInf]
   \<and> \<not> distinct (map row_id
         (runOps today [] [OpDeleteRow (Fin 1), OpAddRow, OpAddRow] [sampleRow 1]))"
  by (simp add: runOps_def deleteRow_def addRow_def nextId_def Math_max_def max2_def newRow_def)

text \<open>
  The rest of the rule holds: a new or duplicated row gets the id
  \<^verbatim>\<open>Math.max(...ids) + 1\<close>, the copies of a batch get the ids that follow the maximum
  one by one, and a deletion only drops rows.
\<close>

lemma row_id_newRow [simp]: "row_id (newRow today cols newId) = newId"
proof -
  have "row_id (fold (\<lambda>col r. setField r (fieldName col) []) cols r) = row_id r" for r
    by (induction cols arbitrary: r) (simp_all add: setField_def)
  then show ?thesis
    by (simp add: newRow_def)
qed

lemma ids_addRow: "map row_id (addRow today cols rows) = map row_id rows @ [nextId rows]"
  by (simp add: addRow_def)

lemma ids_addRowAt:
  "map row_id (addRowAt today cols position rows)
     = (case position of
          Some p \<Rightarrow> if p < length rows
                    then take p (map row_id rows) @ nextId rows # drop p (map row_id rows)
                    else map row_id rows @ [nextId rows]
        | None \<Rightarrow> map row_id rows @ [nextId rows])"
  by (simp add: addRowAt_def Let_def take_map drop_map split: option.splits)

lemma ids_duplicateRow:
  "map row_id (duplicateRow rowId rows)
     = (if \<exists>r \<in> set rows. strict_eq (row_id r) rowId
        then map row_id rows @ [nextId rows] else map row_id rows)"
  by (cases rule: find_row_cases [where rowId = rowId and rows = rows])
    (auto simp: duplicateRow_def)

lemma ids_batchDuplicate:
  "map row_id (batchDuplicate cells rows)
     = map row_id rows
       @ map (\<lambda>i. num_add (num_add (Math_max (map row_id rows)) (Fin (of_nat i))) (Fin 1))
           [0 ..< length (filter (\<lambda>r. row_id r \<in> set (uniqueRowIds cells)) rows)]"
proof -
  have "map row_id (map (\<lambda>(i, r). r\<lparr>row_id := f i\<rparr>) (enumerate n xs))
      = map f [n ..< n + length xs]" for f :: "nat \<Rightarrow> jsnum" and n and xs :: "row list"
  proof (induction xs arbitrary: n)
    case Nil
    then show ?case by simp
  next
    case (Cons x xs)
    have "[n ..< n + length (x # xs)] = n # [Suc n ..< Suc n + length xs]"
      by (simp add: upt_rec)
    with Cons.IH [of "Suc n"] show ?case by simp
  qed
  from this [of _ 0] show ?thesis
    by (simp add: batchDuplicate_def Let_def)
qed

lemma deleteRow_drops_rows:
  "deleteRow rowId rows = filter (\<lambda>r. \<not> strict_eq (row_id r) rowId) rows"
  "batchDelete cells rows = filter (\<lambda>r. row_id r \<notin> set (uniqueRowIds cells)) rows"
  by (simp_all add: deleteRow_def batchDelete_def)

text \<open>
  On a store that is not empty and whose ids are rationals, the maximum is a rational that
  bounds every id, so the next id is new, and every row operation keeps the ids distinct.
  The collision above needs the empty store.
\<close>

lemma foldl_max2_Fin:
  assumes "\<forall>n \<in> set ids. \<exists>q. n = Fin q"
  shows "\<exists>m. foldl max2 (Fin a) ids = Fin m \<and> a \<le> m \<and> (\<forall>q. Fin q \<in> set ids \<longrightarrow> q \<le> m)"
  using assms
proof (induction ids arbitrary: a)
  case Nil
  then show ?case by simp
next
  case (Cons n ids)
  then obtain q where n: "n = Fin q" by auto
  have step: "max2 (Fin a) (Fin q) = Fin (max a q)"
    by (simp add: max2_def max_def)
  from Cons.prems have "\<forall>n \<in> set ids. \<exists>q. n = Fin q" by simp
  from Cons.IH [OF this, of "max a q"]
  obtain m where m: "foldl max2 (Fin (max a q)) ids = Fin m" "max a q \<le> m"
    "\<forall>q. Fin q \<in> set ids \<longrightarrow> q \<le> m"
    by blast
  then show ?case
    by (auto simp: n step intro!: exI [of _ m])
qed

lemma Math_max_bound:
  assumes "finite_ids rows" "rows \<noteq> []"
  shows "\<exists>m. Math_max (map row_id rows) = Fin m \<and> (\<forall>r \<in> set rows. \<exists>q. row_id r = Fin q \<and> q \<le> m)"
proof -
  from assms obtain r rest where rows: "rows = r # rest"
    by (cases rows) auto
  with assms obtain a where a: "row_id r = Fin a"
    by (auto simp: finite_ids_def)
  have "\<forall>n \<in> set (map row_id rest). \<exists>q. n = Fin q"
    using assms(1) by (auto simp: finite_ids_def rows)
  from foldl_max2_Fin [OF this, of a]
  obtain m where m: "foldl max2 (Fin a) (map row_id rest) = Fin m" "a \<le> m"
    "\<forall>q. Fin q \<in> set (map row_id rest) \<longrightarrow> q \<le> m"
    by blast
  have "Math_max (map row_id rows) = Fin m"
    by (simp add: Math_max_def rows a max2_def m)
  moreover have "\<exists>q. row_id x = Fin q \<and> q \<le> m" if "x \<in> set rows" for x
  proof -
    from that assms(1) obtain q where q: "row_id x = Fin q"
      by (auto simp: finite_ids_def)
    with that m a have "q \<le> m"
      by (cases "x = r") (force simp: rows)+
    with q show ?thesis by blast
  qed
  ultimately show ?thesis by blast
qed

lemma ids_stay_distinct:
  assumes finite: "finite_ids rows" and distinct: "distinct (map row_id rows)"
    and nonempty: "rows \<noteq> []"
  shows "distinct (map row_id (applyOp today cols rows op))
     \<and> finite_ids (applyOp today cols rows op)"
proof -
  from Math_max_bound [OF finite nonempty]
  obtain m where m: "Math_max (map row_id rows) = Fin m"
    and bound: "\<And>r. r \<in> set rows \<Longrightarrow> \<exists>q. row_id r = Fin q \<and> q \<le> m"
    by blast
  have next_id: "nextId rows = Fin (m + 1)"
    by (simp add: nextId_def m)
  have above: "Fin (m + 1 + k) \<notin> set (map row_id rows)" if "0 \<le> k" for k
  proof
    assume "Fin (m + 1 + k) \<in> set (map row_id rows)"
    then obtain r where "r \<in> set rows" "row_id r = Fin (m + 1 + k)" by auto
    with bound [of r] that show False by auto
  qed
  from above [of 0] have fresh: "Fin (m + 1) \<notin> set (map row_id rows)" by simp
  have finite_iff: "finite_ids xs = (\<forall>n \<in> set (map row_id xs). \<exists>q. n = Fin q)" for xs
    by (auto simp: finite_ids_def)
  have fin_ids: "\<forall>n \<in> set (map row_id rows). \<exists>q. n = Fin q"
    using finite by (simp only: finite_iff)
  show ?thesis
  proof (cases op)
    case OpAddRow
    with distinct fresh fin_ids show ?thesis
      unfolding finite_iff by (simp add: ids_addRow next_id)
  next
    case (OpAddRowAt position)
    have parts: "distinct (take p (map row_id rows) @ Fin (m + 1) # drop p (map row_id rows))" for p
    proof -
      have "distinct (take p (map row_id rows) @ drop p (map row_id rows))"
        using distinct by (simp only: append_take_drop_id)
      then have "distinct (take p (map row_id rows))" "distinct (drop p (map row_id rows))"
        "set (take p (map row_id rows)) \<inter> set (drop p (map row_id rows)) = {}"
        unfolding distinct_append by blast+
      moreover have "Fin (m + 1) \<notin> set (take p (map row_id rows))"
        "Fin (m + 1) \<notin> set (drop p (map row_id rows))"
        using fresh by (auto dest: in_set_takeD in_set_dropD)
      ultimately show ?thesis by simp
    qed
    have "\<forall>n \<in> set (take p (map row_id rows) @ Fin (m + 1) # drop p (map row_id rows)). \<exists>q. n = Fin q"
      for p
    proof -
      have "set (take p (map row_id rows)) \<subseteq> set (map row_id rows)"
        "set (drop p (map row_id rows)) \<subseteq> set (map row_id rows)"
        by (rule set_take_subset, rule set_drop_subset)
      with fin_ids show ?thesis by (simp add: subset_iff) blast
    qed
    with OpAddRowAt distinct fresh fin_ids parts show ?thesis
      unfolding finite_iff by (simp add: ids_addRowAt next_id split: option.splits)
  next
    case (OpDuplicateRow rowId)
    with distinct fresh fin_ids show ?thesis
      unfolding finite_iff by (simp add: ids_duplicateRow next_id)
  next
    case (OpBatchDuplicate cells)
    let ?k = "length (filter (\<lambda>r. row_id r \<in> set (uniqueRowIds cells)) rows)"
    have new: "map (\<lambda>i. num_add (num_add (Math_max (map row_id rows)) (Fin (of_nat i))) (Fin 1)) [0 ..< ?k]
        = map (\<lambda>i. Fin (m + 1 + of_nat i)) [0 ..< ?k]"
      by (simp add: m add.commute add.left_commute)
    have "distinct (map (\<lambda>i. Fin (m + 1 + of_nat i)) [0 ..< ?k])"
      by (simp add: distinct_map inj_on_def)
    moreover have "set (map row_id rows) \<inter> set (map (\<lambda>i. Fin (m + 1 + of_nat i)) [0 ..< ?k]) = {}"
    proof (rule ccontr)
      assume "set (map row_id rows) \<inter> set (map (\<lambda>i. Fin (m + 1 + of_nat i)) [0 ..< ?k]) \<noteq> {}"
      then obtain n where n: "n \<in> set (map row_id rows)"
        "n \<in> set (map (\<lambda>i. Fin (m + 1 + of_nat i)) [0 ..< ?k])"
        by blast
      from n(2) obtain i :: nat where "n = Fin (m + 1 + of_nat i)"
        by auto
      with n(1) above [of "of_nat i"] show False by simp
    qed
    ultimately have "distinct (map row_id rows @ map (\<lambda>i. Fin (m + 1 + of_nat i)) [0 ..< ?k])"
      using distinct by simp
    moreover have "\<forall>n \<in> set (map row_id rows @ map (\<lambda>i. Fin (m + 1 + of_nat i)) [0 ..< ?k]). \<exists>q. n = Fin q"
      using fin_ids by auto
    ultimately show ?thesis
      unfolding finite_iff OpBatchDuplicate applyOp.simps ids_batchDuplicate new by blast
  next
    case (OpDeleteRow rowId)
    with distinct finite show ?thesis
      by (auto simp: deleteRow_def distinct_map_filter finite_ids_def)
  next
    case (OpBatchDelete cells)
    with distinct finite show ?thesis
      by (auto simp: batchDelete_def distinct_map_filter finite_ids_def)
  qed
qed

section \<open>The built-in sort\<close>

text \<open>Whatever the comparator, the sort returns the elements it was given.\<close>

lemma mset_binaryInsert: "mset (binaryInsert cmp work pivot) = add_mset pivot (mset work)"
proof -
  have "mset (take k work) + mset (drop k work) = mset work" for k
    by (metis append_take_drop_id mset_append)
  then show ?thesis
    by (simp add: binaryInsert_def Let_def)
qed

lemma mset_foldl_binaryInsert:
  "mset (foldl (binaryInsert cmp) work xs) = mset work + mset xs"
  by (induction xs arbitrary: work) (simp_all add: mset_binaryInsert)

lemma mset_Array_sort: "mset (Array_sort cmp xs) = mset xs"
proof (cases "(cmp, xs)" rule: Array_sort.cases)
  case (1 c)
  then show ?thesis by simp
next
  case (2 c x)
  then show ?thesis by simp
next
  case (3 c x0 x1 rest)
  have "mset (take n ys) + mset (drop n ys) = mset ys" for n and ys :: "'a list"
    by (metis append_take_drop_id mset_append)
  with 3 show ?thesis
    by (simp add: Let_def mset_foldl_binaryInsert del: take_Suc_Cons drop_Suc_Cons)
qed


subsection \<open>The binary search on an ordered work array\<close>

lemma bsearch_boundary:
  assumes mono: "\<And>i j. i < j \<Longrightarrow> j < length work \<Longrightarrow>
      cmp pivot (work ! i) < 0 \<Longrightarrow> cmp pivot (work ! j) < 0"
    and bounds: "left \<le> right" "right \<le> length work"
    and below: "\<And>i. i < left \<Longrightarrow> \<not> cmp pivot (work ! i) < 0"
    and above: "\<And>i. right \<le> i \<Longrightarrow> i < length work \<Longrightarrow> cmp pivot (work ! i) < 0"
  shows "bsearch cmp pivot work left right \<le> length work
     \<and> (\<forall>i < bsearch cmp pivot work left right. \<not> cmp pivot (work ! i) < 0)
     \<and> (\<forall>i. bsearch cmp pivot work left right \<le> i \<and> i < length work
            \<longrightarrow> cmp pivot (work ! i) < 0)"
  using bounds below above
proof (induction "right - left" arbitrary: left right rule: less_induct)
  case less
  show ?case
  proof (cases "left < right")
    case False
    with less.prems have "left = right" by simp
    then have "bsearch cmp pivot work left right = right"
      by (subst bsearch.simps) simp
    with \<open>left = right\<close> less.prems show ?thesis
      by auto
  next
    case True
    define mid where "mid = left + (right - left) div 2"
    from True have mid: "left \<le> mid" "mid < right"
      by (auto simp: mid_def)
    with less.prems(2) have mid_len: "mid < length work" by simp
    show ?thesis
    proof (cases "cmp pivot (work ! mid) < 0")
      case before: True
      have eq: "bsearch cmp pivot work left right = bsearch cmp pivot work left mid"
        using True before by (subst bsearch.simps) (simp add: mid_def Let_def)
      have above': "cmp pivot (work ! i) < 0" if "mid \<le> i" "i < length work" for i
      proof (cases "i = mid")
        case True
        with before show ?thesis by simp
      next
        case False
        with that have "mid < i" by simp
        from mono [OF this that(2) before] show ?thesis .
      qed
      have "mid - left < right - left"
        using mid by simp
      from less.hyps [OF this mid(1) _ less.prems(3) above'] mid_len
      show ?thesis
        by (simp only: eq) simp
    next
      case after: False
      have eq: "bsearch cmp pivot work left right = bsearch cmp pivot work (mid + 1) right"
        using True after by (subst bsearch.simps) (simp add: mid_def Let_def)
      have below': "\<not> cmp pivot (work ! i) < 0" if "i < mid + 1" for i
      proof (cases "i = mid")
        case True
        with after show ?thesis by simp
      next
        case False
        with that have "i < mid" by simp
        from mono [OF this mid_len] after show ?thesis by blast
      qed
      have "right - (mid + 1) < right - left" "mid + 1 \<le> right"
        using mid by simp_all
      from less.hyps [OF this less.prems(2) below' less.prems(4)]
      show ?thesis
        by (simp only: eq) simp
    qed
  qed
qed


subsection \<open>Consistent comparators\<close>

lemma consistent_on_flip:
  assumes "consistent_on S cmp" "x \<in> S" "y \<in> S"
  shows "(cmp x y < 0) = (0 < cmp y x)"
  using assms by (simp add: consistent_on_def)

lemma consistent_on_trans:
  assumes "consistent_on S cmp" "x \<in> S" "y \<in> S" "z \<in> S" "cmp x y \<le> 0" "cmp y z \<le> 0"
  shows "cmp x z \<le> 0"
  using assms unfolding consistent_on_def by blast

lemma consistent_on_ge_le:
  assumes "consistent_on S cmp" "x \<in> S" "y \<in> S" "\<not> cmp x y < 0"
  shows "cmp y x \<le> 0"
  using consistent_on_flip [OF assms(1-3)] assms(4) by simp

lemma consistent_on_strict_trans:
  assumes c: "consistent_on S cmp" and S: "x \<in> S" "y \<in> S" "z \<in> S"
    and xy: "cmp x y < 0" and yz: "cmp y z \<le> 0"
  shows "cmp x z < 0"
proof (rule ccontr)
  assume "\<not> cmp x z < 0"
  then have "cmp z x \<le> 0"
    using c S by (intro consistent_on_ge_le)
  with yz have "cmp y x \<le> 0"
    using c S by (intro consistent_on_trans [of S cmp y z x])
  then have "\<not> 0 < cmp y x" by simp
  with consistent_on_flip [OF c S(1,2)] xy show False by simp
qed

subsection \<open>Inserting into an ordered work array\<close>

lemma binaryInsert_ordered:
  assumes c: "consistent_on S cmp" and sub: "set work \<subseteq> S" and p: "pivot \<in> S"
    and sorted: "sorted_wrt (\<lambda>a b. cmp a b \<le> 0) work"
  obtains k where "binaryInsert cmp work pivot = take k work @ pivot # drop k work"
    and "\<forall>e \<in> set (take k work). \<not> cmp pivot e < 0"
    and "\<forall>e \<in> set (drop k work). cmp pivot e < 0"
proof -
  define k where "k = bsearch cmp pivot work 0 (length work)"
  have mono: "cmp pivot (work ! j) < 0"
    if "i < j" "j < length work" "cmp pivot (work ! i) < 0" for i j
  proof -
    have "cmp (work ! i) (work ! j) \<le> 0"
      using sorted_wrt_nth_less [OF sorted that(1,2)] .
    moreover from that sub have "work ! i \<in> S" "work ! j \<in> S"
      by (auto simp: subset_iff)
    ultimately show ?thesis
      using that(3) c p by (intro consistent_on_strict_trans [of S cmp pivot "work ! i" "work ! j"])
  qed
  have k: "k \<le> length work" "\<forall>i < k. \<not> cmp pivot (work ! i) < 0"
    "\<forall>i. k \<le> i \<and> i < length work \<longrightarrow> cmp pivot (work ! i) < 0"
    using bsearch_boundary [of work cmp pivot 0 "length work", OF mono]
    by (simp_all add: k_def)
  have "binaryInsert cmp work pivot = take k work @ pivot # drop k work"
    by (simp add: binaryInsert_def k_def Let_def)
  moreover have "\<forall>e \<in> set (take k work). \<not> cmp pivot e < 0"
  proof
    fix e assume "e \<in> set (take k work)"
    then obtain i where "i < length (take k work)" "e = take k work ! i"
      by (auto simp: in_set_conv_nth)
    with k(1,2) show "\<not> cmp pivot e < 0" by simp
  qed
  moreover have "\<forall>e \<in> set (drop k work). cmp pivot e < 0"
  proof
    fix e assume "e \<in> set (drop k work)"
    then obtain i where i: "i < length (drop k work)" "e = drop k work ! i"
      by (auto simp: in_set_conv_nth)
    then have "k + i < length work" "e = work ! (k + i)"
      using k(1) by simp_all
    with k(3) show "cmp pivot e < 0" by simp
  qed
  ultimately show ?thesis by (rule that)
qed

lemma sorted_binaryInsert:
  assumes c: "consistent_on S cmp" and sub: "set work \<subseteq> S" and p: "pivot \<in> S"
    and sorted: "sorted_wrt (\<lambda>a b. cmp a b \<le> 0) work"
  shows "sorted_wrt (\<lambda>a b. cmp a b \<le> 0) (binaryInsert cmp work pivot)"
proof -
  from binaryInsert_ordered [OF c sub p sorted]
  obtain k where k: "binaryInsert cmp work pivot = take k work @ pivot # drop k work"
    "\<forall>e \<in> set (take k work). \<not> cmp pivot e < 0"
    "\<forall>e \<in> set (drop k work). cmp pivot e < 0"
    by blast
  from sorted have "sorted_wrt (\<lambda>a b. cmp a b \<le> 0) (take k work @ drop k work)"
    by simp
  then have parts: "sorted_wrt (\<lambda>a b. cmp a b \<le> 0) (take k work)"
    "sorted_wrt (\<lambda>a b. cmp a b \<le> 0) (drop k work)"
    "\<forall>x \<in> set (take k work). \<forall>y \<in> set (drop k work). cmp x y \<le> 0"
    unfolding sorted_wrt_append by blast+
  have "cmp e pivot \<le> 0" if "e \<in> set (take k work)" for e
  proof -
    from that sub have "e \<in> S"
      by (auto dest: in_set_takeD)
    with that k(2) show ?thesis
      using c p by (intro consistent_on_ge_le [of S cmp pivot e]) auto
  qed
  moreover have "cmp pivot e \<le> 0" if "e \<in> set (drop k work)" for e
    using that k(3) by force
  ultimately show ?thesis
    unfolding k(1) using parts by (auto simp: sorted_wrt_append)
qed

lemma filter_binaryInsert:
  assumes c: "consistent_on S cmp" and sub: "set work \<subseteq> S" and p: "pivot \<in> S"
    and sorted: "sorted_wrt (\<lambda>a b. cmp a b \<le> 0) work"
    and equal: "\<And>u v. Q u \<Longrightarrow> Q v \<Longrightarrow> cmp u v = 0"
  shows "filter Q (binaryInsert cmp work pivot) = filter Q (work @ [pivot])"
proof -
  from binaryInsert_ordered [OF c sub p sorted]
  obtain k where k: "binaryInsert cmp work pivot = take k work @ pivot # drop k work"
    "\<forall>e \<in> set (drop k work). cmp pivot e < 0"
    by metis
  have "filter Q (take k work @ drop k work) = filter Q (take k work) @ filter Q (drop k work)"
    by (rule filter_append)
  then have split: "filter Q work = filter Q (take k work) @ filter Q (drop k work)"
    by (simp only: append_take_drop_id)
  have inserted: "filter Q (binaryInsert cmp work pivot)
      = filter Q (take k work) @ filter Q [pivot] @ filter Q (drop k work)"
    unfolding k(1) by simp
  have appended: "filter Q (work @ [pivot])
      = filter Q (take k work) @ filter Q (drop k work) @ filter Q [pivot]"
    unfolding filter_append split by simp
  show ?thesis
  proof (cases "Q pivot")
    case True
    have "\<not> Q e" if "e \<in> set (drop k work)" for e
    proof
      assume "Q e"
      with True have "cmp pivot e = 0" by (rule equal)
      moreover from that k(2) have "cmp pivot e < 0" by blast
      ultimately show False by simp
    qed
    then have "filter Q (drop k work) = []"
      by (simp add: filter_empty_conv)
    then show ?thesis
      unfolding inserted appended by simp
  next
    case False
    then show ?thesis
      unfolding inserted appended by simp
  qed
qed

lemma set_binaryInsert: "set (binaryInsert cmp work pivot) = insert pivot (set work)"
  using mset_binaryInsert [of cmp work pivot] by (metis set_mset_add_mset_insert set_mset_mset)

lemma foldl_binaryInsert_ordered:
  assumes c: "consistent_on S cmp" and sub: "set work \<subseteq> S" "set xs \<subseteq> S"
    and sorted: "sorted_wrt (\<lambda>a b. cmp a b \<le> 0) work"
  shows "sorted_wrt (\<lambda>a b. cmp a b \<le> 0) (foldl (binaryInsert cmp) work xs)"
  using sub sorted
proof (induction xs arbitrary: work)
  case Nil
  then show ?case by simp
next
  case (Cons x xs)
  from Cons.prems have x: "x \<in> S" and xs: "set xs \<subseteq> S" by simp_all
  have "set (binaryInsert cmp work x) \<subseteq> S"
    using Cons.prems(1) x by (simp add: set_binaryInsert)
  moreover have "sorted_wrt (\<lambda>a b. cmp a b \<le> 0) (binaryInsert cmp work x)"
    using c Cons.prems(1) x Cons.prems(3) by (rule sorted_binaryInsert)
  ultimately show ?case
    using Cons.IH xs by simp
qed

lemma foldl_binaryInsert_stable:
  assumes c: "consistent_on S cmp" and sub: "set work \<subseteq> S" "set xs \<subseteq> S"
    and sorted: "sorted_wrt (\<lambda>a b. cmp a b \<le> 0) work"
    and equal: "\<And>u v. Q u \<Longrightarrow> Q v \<Longrightarrow> cmp u v = 0"
  shows "filter Q (foldl (binaryInsert cmp) work xs) = filter Q (work @ xs)"
  using sub sorted
proof (induction xs arbitrary: work)
  case Nil
  then show ?case by simp
next
  case (Cons x xs)
  from Cons.prems have x: "x \<in> S" and xs: "set xs \<subseteq> S" by simp_all
  have sub': "set (binaryInsert cmp work x) \<subseteq> S"
    using Cons.prems(1) x by (simp add: set_binaryInsert)
  have sorted': "sorted_wrt (\<lambda>a b. cmp a b \<le> 0) (binaryInsert cmp work x)"
    using c Cons.prems(1) x Cons.prems(3) by (rule sorted_binaryInsert)
  have "filter Q (binaryInsert cmp work x) = filter Q (work @ [x])"
    using c Cons.prems(1) x Cons.prems(3) equal by (rule filter_binaryInsert)
  with Cons.IH [OF sub' xs sorted'] show ?case
    by simp
qed


subsection \<open>The first run\<close>

lemma countRun_successively:
  "successively (\<lambda>previous current.
       if isDescending then cmp current previous < 0 else 0 \<le> cmp current previous)
     (previous # take (countRun cmp isDescending previous rest) rest)"
  by (induction rest arbitrary: previous) auto

lemma filter_rev_strict:
  assumes "sorted_wrt R xs" and "\<And>u v. Q u \<Longrightarrow> Q v \<Longrightarrow> \<not> R u v"
  shows "filter Q (rev xs) = filter Q xs"
  using assms(1)
proof (induction xs)
  case Nil
  then show ?case by simp
next
  case (Cons x xs)
  show ?case
  proof (cases "Q x")
    case True
    have "\<not> Q y" if "y \<in> set xs" for y
      using that Cons.prems assms(2) [OF True, of y] by auto
    then have "filter Q xs = []"
      by (simp add: filter_empty_conv)
    with True Cons show ?thesis by simp
  next
    case False
    with Cons show ?thesis by simp
  qed
qed

lemma first_run_ordered:
  assumes c: "consistent_on S cmp" and sub: "set run \<subseteq> S"
    and run: "successively (\<lambda>previous current.
       if isDescending then cmp current previous < 0 else 0 \<le> cmp current previous) run"
  shows "sorted_wrt (\<lambda>a b. cmp a b \<le> 0) (if isDescending then rev run else run)"
    and "(\<And>u v. Q u \<Longrightarrow> Q v \<Longrightarrow> cmp u v = 0)
      \<Longrightarrow> filter Q (if isDescending then rev run else run) = filter Q run"
proof -
  have trans: "cmp x z \<le> 0"
    if "x \<in> set run" "y \<in> set run" "z \<in> set run" "cmp x y \<le> 0" "cmp y z \<le> 0" for x y z
    using that sub c by (intro consistent_on_trans [of S cmp x y z]) auto
  have ascending: "sorted_wrt (\<lambda>a b. cmp a b \<le> 0) run" if "\<not> isDescending"
  proof -
    have "successively (\<lambda>a b. cmp a b \<le> 0) run"
    proof (rule successively_mono [OF run])
      fix x y assume "x \<in> set run" "y \<in> set run"
        and "if isDescending then cmp y x < 0 else 0 \<le> cmp y x"
      with that sub c show "cmp x y \<le> 0"
        by (intro consistent_on_ge_le [of S cmp y x]) auto
    qed
    then show ?thesis
      using trans by (subst (asm) successively_iff_sorted_wrt_strong) blast+
  qed
  have strict: "sorted_wrt (\<lambda>a b. cmp b a < 0) run" if "isDescending"
  proof -
    have "successively (\<lambda>a b. cmp b a < 0) run"
    proof (rule successively_mono [OF run])
      fix x y assume "if isDescending then cmp y x < 0 else 0 \<le> cmp y x"
      with that show "cmp y x < 0" by simp
    qed
    moreover have "cmp z x < 0"
      if "x \<in> set run" "y \<in> set run" "z \<in> set run" "cmp y x < 0" "cmp z y < 0" for x y z
      using that sub c by (intro consistent_on_strict_trans [of S cmp z y x]) auto
    ultimately show ?thesis
      by (subst (asm) successively_iff_sorted_wrt_strong) blast+
  qed
  have descending: "sorted_wrt (\<lambda>a b. cmp a b \<le> 0) (rev run)" if "isDescending"
  proof -
    have "sorted_wrt (\<lambda>a b. cmp b a \<le> 0) run"
      using strict [OF that] by (rule sorted_wrt_mono_rel [rotated]) simp
    then show ?thesis
      by (simp add: sorted_wrt_rev)
  qed
  show "sorted_wrt (\<lambda>a b. cmp a b \<le> 0) (if isDescending then rev run else run)"
    using ascending descending by simp
  show "filter Q (if isDescending then rev run else run) = filter Q run"
    if equal: "\<And>u v. Q u \<Longrightarrow> Q v \<Longrightarrow> cmp u v = 0"
  proof (cases isDescending)
    case True
    have "filter Q (rev run) = filter Q run"
    proof (rule filter_rev_strict [OF strict [OF True]])
      fix u v assume "Q u" "Q v"
      then have "cmp v u = 0" by (intro equal)
      then show "\<not> cmp v u < 0" by simp
    qed
    with True show ?thesis by simp
  next
    case False
    then show ?thesis by simp
  qed
qed

subsection \<open>The sort under a consistent comparator\<close>

lemma Array_sort_consistent:
  assumes c: "consistent_on S cmp" and sub: "set xs \<subseteq> S"
  shows "sorted_wrt (\<lambda>a b. cmp a b \<le> 0) (Array_sort cmp xs)"
    and "(\<And>u v. Q u \<Longrightarrow> Q v \<Longrightarrow> cmp u v = 0) \<Longrightarrow> filter Q (Array_sort cmp xs) = filter Q xs"
proof -
  have "sorted_wrt (\<lambda>a b. cmp a b \<le> 0) (Array_sort cmp xs)
    \<and> ((\<forall>u v. Q u \<longrightarrow> Q v \<longrightarrow> cmp u v = 0) \<longrightarrow> filter Q (Array_sort cmp xs) = filter Q xs)"
  proof (cases "(cmp, xs)" rule: Array_sort.cases)
    case (1 c)
    then show ?thesis by simp
  next
    case (2 c x)
    then show ?thesis by simp
  next
    case (3 c x0 x1 rest)
    define isDescending where "isDescending = (cmp x1 x0 < 0)"
    define n where "n = countRun cmp isDescending x1 rest"
    define run where "run = x0 # x1 # take n rest"
    define others where "others = drop n rest"
    define work where "work = (if isDescending then rev run else run)"
    from 3 have xs: "xs = run @ others"
      by (simp add: run_def others_def)
    have sorted_eq: "Array_sort cmp xs = foldl (binaryInsert cmp) work others"
      using 3 by (simp add: Let_def work_def run_def others_def n_def isDescending_def)
    have run_sub: "set run \<subseteq> S" and others_sub: "set others \<subseteq> S"
      using sub by (simp_all add: xs)
    have "successively (\<lambda>previous current.
       if isDescending then cmp current previous < 0 else 0 \<le> cmp current previous) run"
      using countRun_successively [of isDescending cmp x1 rest]
      by (simp add: run_def n_def isDescending_def)
    note first = first_run_ordered [OF c run_sub this]
    have work_sorted: "sorted_wrt (\<lambda>a b. cmp a b \<le> 0) work"
      using first(1) by (simp add: work_def)
    have work_sub: "set work \<subseteq> S"
      using run_sub by (simp add: work_def)
    have "sorted_wrt (\<lambda>a b. cmp a b \<le> 0) (Array_sort cmp xs)"
      unfolding sorted_eq using c work_sub others_sub work_sorted
      by (rule foldl_binaryInsert_ordered)
    moreover have "filter Q (Array_sort cmp xs) = filter Q xs"
      if equal: "\<And>u v. Q u \<Longrightarrow> Q v \<Longrightarrow> cmp u v = 0"
    proof -
      have "filter Q (foldl (binaryInsert cmp) work others) = filter Q (work @ others)"
        using c work_sub others_sub work_sorted equal by (rule foldl_binaryInsert_stable)
      moreover have "filter Q work = filter Q run"
        using first(2) [OF equal] by (simp add: work_def)
      ultimately have "filter Q (foldl (binaryInsert cmp) work others) = filter Q (run @ others)"
        by simp
      then show ?thesis
        unfolding sorted_eq by (simp only: xs)
    qed
    ultimately show ?thesis by blast
  qed
  then show "sorted_wrt (\<lambda>a b. cmp a b \<le> 0) (Array_sort cmp xs)"
    and "(\<And>u v. Q u \<Longrightarrow> Q v \<Longrightarrow> cmp u v = 0) \<Longrightarrow> filter Q (Array_sort cmp xs) = filter Q xs"
    by blast+
qed

section \<open>The filter stage and the search annotation\<close>

lemma includes_str_sublist: "includes_str s t = sublist t s"
  by (induction s) (simp_all add: sublist_Cons_right)

lemma trim_empty_iff: "(trim s = []) = (\<forall>c \<in> set s. isWhiteSpace c)"
proof
  assume "trim s = []"
  then have all: "\<forall>c \<in> set (dropWhile isWhiteSpace s). isWhiteSpace c"
    by (simp add: trim_def)
  have "dropWhile isWhiteSpace s = []"
  proof (rule ccontr)
    assume ne: "dropWhile isWhiteSpace s \<noteq> []"
    then have "\<not> isWhiteSpace (hd (dropWhile isWhiteSpace s))"
      by (rule hd_dropWhile)
    moreover from ne have "hd (dropWhile isWhiteSpace s) \<in> set (dropWhile isWhiteSpace s)"
      by (rule hd_in_set)
    ultimately show False using all by blast
  qed
  then show "\<forall>c \<in> set s. isWhiteSpace c"
    by simp
next
  assume "\<forall>c \<in> set s. isWhiteSpace c"
  then have blank: "dropWhile isWhiteSpace s = []"
    by simp
  show "trim s = []"
    unfolding trim_def blank by simp
qed

lemma set_Array_sort: "set (Array_sort cmp xs) = set xs"
  using mset_Array_sort [of cmp xs] by (metis set_mset_mset)


lemma mset_processedData: "mset (processedData newDate p rows) = mset (filterRows p rows)"
  by (simp add: processedData_def Let_def mset_Array_sort split: option.splits)

lemma fold_count: "fold (\<lambda>x c. if P x then c + 1 else c) xs (c::nat) = c + length (filter P xs)"
  by (induction xs arbitrary: c) simp_all

lemma fold_count_rows:
  "fold (\<lambda>r c. fold (\<lambda>f c. if Q r f then c + 1 else c) vf c) view (c::nat)
     = c + length (filter (\<lambda>(r, f). Q r f) (List.product view vf))"
proof (induction view arbitrary: c)
  case Nil
  then show ?case by simp
next
  case (Cons r view)
  have "length (filter (\<lambda>(r, f). Q r f) (map (Pair r) vf)) = length (filter (Q r) vf)"
    by (simp add: filter_map comp_def)
  with Cons show ?case
    by (simp add: fold_count)
qed



text \<open>
  Claim C7. When the search term is empty or consists of white space only, no cell matches
  and the count is 0. Otherwise a cell matches exactly when its stringified value
  case-insensitively contains the term (the term is compared as typed, not trimmed). The
  count is the number of pairs of a row of the processed view and a visible field whose cell
  matches, so a row with two matching cells counts twice. In the sample row the term
  \<^verbatim>\<open>pat\<close> matches the submitter \<^verbatim>\<open>Aisha Patel\<close> and the url, which gives the count 2
  for that single row.
\<close>

theorem search_matches_and_count:
  "(list_all isWhiteSpace (searchTerm p) \<longrightarrow>
       \<not> cellMatchesSearch p r f \<and> searchResultsCount p view vf = 0)
   \<and> (\<not> list_all isWhiteSpace (searchTerm p) \<longrightarrow>
       cellMatchesSearch p r f = spec_ci_contains (cellString r f) (searchTerm p))
   \<and> searchResultsCount p view vf
       = length (filter (\<lambda>(r, f). cellMatchesSearch p r f) (List.product view vf))"
proof (intro conjI impI)
  assume "list_all isWhiteSpace (searchTerm p)"
  then have blank: "trim (searchTerm p) = []"
    by (simp add: trim_empty_iff list_all_iff)
  then show "\<not> cellMatchesSearch p r f"
    by (simp add: cellMatchesSearch_def)
  from blank show "searchResultsCount p view vf = 0"
    by (simp add: searchResultsCount_def)
next
  assume "\<not> list_all isWhiteSpace (searchTerm p)"
  then have "trim (searchTerm p) \<noteq> []"
    by (simp add: trim_empty_iff list_all_iff)
  then show "cellMatchesSearch p r f = spec_ci_contains (cellString r f) (searchTerm p)"
    by (simp add: cellMatchesSearch_def spec_ci_contains_def includes_str_sublist)
next
  show "searchResultsCount p view vf
       = length (filter (\<lambda>(r, f). cellMatchesSearch p r f) (List.product view vf))"
  proof (cases "trim (searchTerm p) = []")
    case True
    then have "filter (\<lambda>(r, f). cellMatchesSearch p r f) (List.product view vf) = []"
      by (simp add: cellMatchesSearch_def)
    with True show ?thesis
      by (simp add: searchResultsCount_def)
  next
    case False
    then show ?thesis
      by (simp add: searchResultsCount_def fold_count_rows)
  qed
qed

theorem search_matches_and_count_witness:
  "\<not> list_all isWhiteSpace (searchTerm (sampleProps\<lparr>searchTerm := ''pat''\<rparr>))
   \<and> cellMatchesSearch (sampleProps\<lparr>searchTerm := ''pat''\<rparr>) (sampleRow 1) ''submitter''
   \<and> spec_ci_contains ''Aisha Patel'' ''pat''
   \<and> searchResultsCount (sampleProps\<lparr>searchTerm := ''pat''\<rparr>) [sampleRow 1] [''submitter'', ''url'', ''status''] = 2
   \<and> list_all isWhiteSpace (searchTerm (sampleProps\<lparr>searchTerm := ''  ''\<rparr>))
   \<and> searchResultsCount (sampleProps\<lparr>searchTerm := ''  ''\<rparr>) [sampleRow 1] [''submitter''] = 0"
  using search_matches_and_count [of "sampleProps\<lparr>searchTerm := ''pat''\<rparr>" "sampleRow 1" "''submitter''" "[sampleRow 1]" "[''submitter'', ''url'', ''status'']"]
    search_matches_and_count [of "sampleProps\<lparr>searchTerm := ''  ''\<rparr>" "sampleRow 1" "''submitter''" "[sampleRow 1]" "[''submitter'']"]
  by (simp add: sampleProps_def sampleRow_def isWhiteSpace_def cellMatchesSearch_def trim_def
      cellString_def getField_def toLowerCase_def toLowerChar_def)

lemma sampleRow_inject [simp]: "(sampleRow m = sampleRow n) = (m = n)"
  by (auto simp: sampleRow_def)

lemma priority_sampleRow: "priority (sampleRow n) = ''Medium''"
  by (simp add: sampleRow_def)

section \<open>The sort stage\<close>

lemma num_lt_irrefl [simp]: "\<not> num_lt a a"
  by (cases a) simp_all

lemma str_lt_irrefl [simp]: "\<not> str_lt s s"
  by (induction s) simp_all

lemma val_lt_irrefl [simp]: "\<not> val_lt v v"
  by (cases v) simp_all

lemma compareRows_zero:
  "(compareRows newDate sf so a b = 0)
     = (\<not> val_lt (sortValue newDate sf a) (sortValue newDate sf b)
        \<and> \<not> val_lt (sortValue newDate sf b) (sortValue newDate sf a))"
  by (simp add: compareRows_def Let_def)

lemma compareRows_refl [simp]: "compareRows newDate sf so a a = 0"
  by (simp add: compareRows_zero)

lemma compareRows_sym: "compareRows newDate sf so a b = 0 \<Longrightarrow> compareRows newDate sf so b a = 0"
  by (simp add: compareRows_zero)

text \<open>
  Less-than on sort values never holds both ways, and not-less is transitive through a
  value that is not NaN, among numbers and among strings.
\<close>

lemma num_lt_asym: "num_lt a b \<Longrightarrow> \<not> num_lt b a"
  by (cases a; cases b) simp_all

lemma num_lt_total: "a \<noteq> NaN \<Longrightarrow> b \<noteq> NaN \<Longrightarrow> \<not> num_lt a b \<Longrightarrow> \<not> num_lt b a \<Longrightarrow> a = b"
  by (cases a; cases b) simp_all

lemma num_le_trans:
  "b \<noteq> NaN \<Longrightarrow> \<not> num_lt b a \<Longrightarrow> \<not> num_lt c b \<Longrightarrow> \<not> num_lt c a"
  by (cases a; cases b; cases c) simp_all

lemma num_lt_NaN [simp]: "\<not> num_lt a NaN"
  by (cases a) simp_all

lemma str_lt_asym: "str_lt a b \<Longrightarrow> \<not> str_lt b a"
  by (induction a b rule: str_lt.induct) (auto split: if_splits)

lemma str_le_trans: "\<not> str_lt b a \<Longrightarrow> \<not> str_lt c b \<Longrightarrow> \<not> str_lt c a"
proof (induction a arbitrary: b c)
  case Nil
  then show ?case
    by (cases b; cases c) (auto split: if_splits)
next
  case (Cons x a)
  show ?case
  proof (cases b)
    case Nil
    with Cons.prems show ?thesis by simp
  next
    case b: (Cons y b')
    show ?thesis
    proof (cases c)
      case Nil
      with Cons.prems b show ?thesis by simp
    next
      case c: (Cons z c')
      define nx ny nz where "nx = (of_char x :: nat)" and "ny = (of_char y :: nat)"
        and "nz = (of_char z :: nat)"
      have head: "str_lt (y # b') (x # a) = (ny < nx \<or> ny = nx \<and> str_lt b' a)"
        "str_lt (z # c') (y # b') = (nz < ny \<or> nz = ny \<and> str_lt c' b')"
        "str_lt (z # c') (x # a) = (nz < nx \<or> nz = nx \<and> str_lt c' a)"
        unfolding nx_def ny_def nz_def by auto
      from Cons.prems have le: "\<not> ny < nx" "\<not> nz < ny"
        and tails: "ny = nx \<longrightarrow> \<not> str_lt b' a" "nz = ny \<longrightarrow> \<not> str_lt c' b'"
        unfolding b c head by blast+
      show ?thesis
      proof (cases "nz = nx")
        case True
        with le have "ny = nx" "nz = ny" by linarith+
        with tails Cons.IH [of b' c'] have "\<not> str_lt c' a" by blast
        with le True show ?thesis
          unfolding c head by blast
      next
        case False
        with le have "\<not> nz < nx" by linarith
        with False show ?thesis
          unfolding c head by blast
      qed
    qed
  qed
qed

lemma val_lt_asym: "val_lt a b \<Longrightarrow> \<not> val_lt b a"
  by (cases a; cases b) (auto dest: num_lt_asym str_lt_asym)

lemma sortValue_kind:
  "(\<forall>r. \<exists>n. sortValue newDate sf r = NumVal n) \<or> (\<forall>r. \<exists>s. sortValue newDate sf r = StrVal s)"
  by (cases sf) (simp_all add: sortValue_def)

lemma sortValue_le_trans:
  assumes "sortValue newDate sf y \<noteq> NumVal NaN"
    and "\<not> val_lt (sortValue newDate sf y) (sortValue newDate sf x)"
    and "\<not> val_lt (sortValue newDate sf z) (sortValue newDate sf y)"
  shows "\<not> val_lt (sortValue newDate sf z) (sortValue newDate sf x)"
  using sortValue_kind [of newDate sf]
proof
  assume "\<forall>r. \<exists>n. sortValue newDate sf r = NumVal n"
  then obtain a b c where "sortValue newDate sf x = NumVal a" "sortValue newDate sf y = NumVal b"
    "sortValue newDate sf z = NumVal c"
    by metis
  with assms show ?thesis
    by (auto dest: num_le_trans)
next
  assume "\<forall>r. \<exists>s. sortValue newDate sf r = StrVal s"
  then obtain a b c where "sortValue newDate sf x = StrVal a" "sortValue newDate sf y = StrVal b"
    "sortValue newDate sf z = StrVal c"
    by metis
  with assms show ?thesis
    by (auto dest: str_le_trans)
qed

text \<open>The comparator in terms of less-than on the sort values.\<close>

lemma compareRows_less:
  "(compareRows newDate sf so a b < 0)
     = (if so = Asc then val_lt (sortValue newDate sf a) (sortValue newDate sf b)
        else val_lt (sortValue newDate sf b) (sortValue newDate sf a))"
  by (auto simp: compareRows_def Let_def dest: val_lt_asym)

lemma compareRows_greater:
  "(0 < compareRows newDate sf so a b)
     = (if so = Asc then val_lt (sortValue newDate sf b) (sortValue newDate sf a)
        else val_lt (sortValue newDate sf a) (sortValue newDate sf b))"
  by (auto simp: compareRows_def Let_def dest: val_lt_asym)

lemma compareRows_le:
  "(compareRows newDate sf so a b \<le> 0)
     = (if so = Asc then \<not> val_lt (sortValue newDate sf b) (sortValue newDate sf a)
        else \<not> val_lt (sortValue newDate sf a) (sortValue newDate sf b))"
  using compareRows_greater [of newDate sf so a b] by (simp add: not_less [symmetric])

text \<open>
  On rows whose sort value is not NaN the comparator is a consistent ordering, so the view
  is ordered by it and rows that compare equal keep the order of the filter stage.
\<close>

lemma compareRows_consistent:
  assumes "\<forall>r \<in> S. sortValue newDate sf r \<noteq> NumVal NaN"
  shows "consistent_on S (compareRows newDate sf so)"
  unfolding consistent_on_def
proof (intro conjI ballI impI)
  fix x y
  show "(compareRows newDate sf so x y < 0) = (0 < compareRows newDate sf so y x)"
    by (simp add: compareRows_less compareRows_greater)
next
  fix x y z
  assume S: "x \<in> S" "y \<in> S" "z \<in> S"
    and le: "compareRows newDate sf so x y \<le> 0" "compareRows newDate sf so y z \<le> 0"
  from S assms have y: "sortValue newDate sf y \<noteq> NumVal NaN" by blast
  show "compareRows newDate sf so x z \<le> 0"
  proof (cases "so = Asc")
    case True
    with le sortValue_le_trans [OF y, of x z] show ?thesis
      by (simp add: compareRows_le)
  next
    case False
    with le sortValue_le_trans [OF y, of z x] show ?thesis
      by (simp add: compareRows_le)
  qed
qed

lemma sort_stable_without_NaN:
  assumes spec: "sortField p = Some sf" "sortOrder p = Some so"
    and no_nan: "\<forall>r \<in> set (filterRows p rows). sortValue newDate sf r \<noteq> NumVal NaN"
    and equal: "compareRows newDate sf so a b = 0"
  shows "filter (\<lambda>r. r = a \<or> r = b) (processedData newDate p rows)
           = filter (\<lambda>r. r = a \<or> r = b) (filterRows p rows)"
    and "sorted_wrt (\<lambda>x y. compareRows newDate sf so x y \<le> 0) (processedData newDate p rows)"
proof -
  have view: "processedData newDate p rows
      = Array_sort (compareRows newDate sf so) (filterRows p rows)"
    using spec by (simp add: processedData_def)
  have consistent: "consistent_on (set (filterRows p rows)) (compareRows newDate sf so)"
    using no_nan by (rule compareRows_consistent)
  have "compareRows newDate sf so u v = 0" if "u = a \<or> u = b" "v = a \<or> v = b" for u v
    using that equal compareRows_sym [OF equal] by auto
  then show "filter (\<lambda>r. r = a \<or> r = b) (processedData newDate p rows)
           = filter (\<lambda>r. r = a \<or> r = b) (filterRows p rows)"
    unfolding view by (intro Array_sort_consistent(2) [OF consistent]) auto
  show "sorted_wrt (\<lambda>x y. compareRows newDate sf so x y \<le> 0) (processedData newDate p rows)"
    unfolding view by (intro Array_sort_consistent(1) [OF consistent]) auto
qed

lemma view_without_sort:
  "sortField p = None \<or> sortOrder p = None \<Longrightarrow> processedData newDate p rows = filterRows p rows"
  by (auto simp: processedData_def Let_def split: option.splits)

text \<open>
  Claim C4, at the input where the code breaks it. The store has the due dates 03-01-2024,
  02-01-2024, the empty string and 01-01-2024 in the rows 1 to 4, and the view is sorted by
  the due date, ascending. The empty due date gives a NaN time value, which is neither less
  nor greater than any date, so the comparator finds row 3 equal to row 4 (and to every
  row). Row 3 stands before row 4 in the store and behind it in the view, which is
  4, 2, 1, 3.
\<close>

theorem sort_reverses_equal_rows:
  "map row_id dueRows = [Fin 1, Fin 2, Fin 3, Fin 4]
   \<and> filterRows (sortedBy SortDueDate Asc) dueRows = dueRows
   \<and> sortValue sampleDate SortDueDate (dueRows ! 2) = NumVal NaN
   \<and> compareRows sampleDate SortDueDate Asc (dueRows ! 2) (dueRows ! 3) = 0
   \<and> map row_id (processedData sampleDate (sortedBy SortDueDate Asc) dueRows)
       = [Fin 4, Fin 2, Fin 1, Fin 3]"
proof (intro conjI)
  show "map row_id dueRows = [Fin 1, Fin 2, Fin 3, Fin 4]"
    by (simp add: dueRows_def)
  show "filterRows (sortedBy SortDueDate Asc) dueRows = dueRows"
    by (simp add: filterRows_def sortedBy_def sampleProps_def)
  show nan: "sortValue sampleDate SortDueDate (dueRows ! 2) = NumVal NaN"
    by (simp add: dueRows_def sortValue_def reverseDate_def sampleDate_def)
  show "compareRows sampleDate SortDueDate Asc (dueRows ! 2) (dueRows ! 3) = 0"
    by (simp add: compareRows_zero nan) (simp add: sortValue_def)
  show "map row_id (processedData sampleDate (sortedBy SortDueDate Asc) dueRows)
       = [Fin 4, Fin 2, Fin 1, Fin 3]"
    by code_simp
qed

section \<open>Sorting by the estimated value\<close>

lemma or_zero_not_NaN [simp]: "or_zero n \<noteq> NaN"
  by (simp add: or_zero_def truthy_num_def)

lemma estNumber_not_NaN [simp]: "estNumber s \<noteq> NaN"
  by (simp add: estNumber_def)

text \<open>The comparator on the estimated value, in either order, in terms of the amounts.\<close>

lemma compareRows_estValue:
  "compareRows newDate SortEstValue so a b =
     (if num_lt (estNumber (estValue a)) (estNumber (estValue b))
      then (if so = Asc then - 1 else 1)
      else if num_lt (estNumber (estValue b)) (estNumber (estValue a))
      then (if so = Asc then 1 else - 1)
      else 0)"
  by (simp add: compareRows_def sortValue_def)

lemma compareRows_estValue_le:
  "(compareRows newDate SortEstValue so a b \<le> 0) =
     (if so = Asc then \<not> num_lt (estNumber (estValue b)) (estNumber (estValue a))
      else \<not> num_lt (estNumber (estValue a)) (estNumber (estValue b)))"
  by (auto simp: compareRows_estValue dest: num_lt_asym)

lemma compareRows_estValue_consistent: "consistent_on UNIV (compareRows newDate SortEstValue so)"
  unfolding consistent_on_def
proof (intro conjI ballI impI)
  fix x y
  show "(compareRows newDate SortEstValue so x y < 0) = (0 < compareRows newDate SortEstValue so y x)"
    by (auto simp: compareRows_estValue dest: num_lt_asym)
next
  fix x y z
  assume "compareRows newDate SortEstValue so x y \<le> 0" "compareRows newDate SortEstValue so y z \<le> 0"
  then show "compareRows newDate SortEstValue so x z \<le> 0"
    unfolding compareRows_estValue_le
    using num_le_trans [of "estNumber (estValue y)" "estNumber (estValue x)" "estNumber (estValue z)"]
      num_le_trans [of "estNumber (estValue y)" "estNumber (estValue z)" "estNumber (estValue x)"]
    by (auto split: if_splits)
qed

lemma sorted_by_estValue:
  "sorted_wrt (\<lambda>a b. compareRows newDate SortEstValue so a b \<le> 0)
     (Array_sort (compareRows newDate SortEstValue so) rows)"
  using compareRows_estValue_consistent by (rule Array_sort_consistent(1)) simp

lemma filterRows_sort_props [simp]:
  "filterRows (p\<lparr>sortField := sf, sortOrder := so\<rparr>) rows = filterRows p rows"
  by (simp add: filterRows_def split: option.splits)

text \<open>
  Claim C5. When the view is sorted by \<^verbatim>\<open>estValue\<close>, the value a row is compared on is
  its amount: the number that \<^verbatim>\<open>parseFloat\<close> reads from the field with every comma
  deleted, and 0 when that is NaN, so the sort never meets a NaN. The comparator orders
  two rows by their amounts as numbers, and the processed view is ordered by the amount,
  ascending or descending as asked. For the rows 1 and 2 with the amounts \<^verbatim>\<open>1,200\<close>
  and \<^verbatim>\<open>300\<close> the ascending view is row 2, then row 1. The sign, the fraction and the
  exponent of a field all count: \<^verbatim>\<open>-1.5e2\<close> reads as -150, \<^verbatim>\<open>+.25E-1\<close> as 1/40,
  \<^verbatim>\<open>-1,234.5e1\<close> as -12345, and \<^verbatim>\<open>abc\<close> as 0.
\<close>

theorem sort_by_estValue_numeric:
  "sortValue newDate SortEstValue r = NumVal (estNumber (estValue r))
   \<and> estNumber s = (let n = parseFloat (filter (\<lambda>c. c \<noteq> CHR '','') s)
                    in if n = NaN then Fin 0 else n)
   \<and> estNumber s \<noteq> NaN
   \<and> compareRows newDate SortEstValue Asc a b =
       (if num_lt (estNumber (estValue a)) (estNumber (estValue b)) then - 1
        else if num_lt (estNumber (estValue b)) (estNumber (estValue a)) then 1 else 0)
   \<and> sorted_wrt (\<lambda>a b. \<not> num_lt (estNumber (estValue b)) (estNumber (estValue a)))
        (processedData newDate (p\<lparr>sortField := Some SortEstValue, sortOrder := Some Asc\<rparr>) rows)
   \<and> sorted_wrt (\<lambda>a b. \<not> num_lt (estNumber (estValue a)) (estNumber (estValue b)))
        (processedData newDate (p\<lparr>sortField := Some SortEstValue, sortOrder := Some Desc\<rparr>) rows)
   \<and> map row_id (processedData newDate (sortedBy SortEstValue Asc) amountRows) = [Fin 2, Fin 1]
   \<and> parseFloat ''-1.5e2'' = Fin (- 150)
   \<and> parseFloat ''+.25E-1'' = Fin (1 / 40)
   \<and> estNumber ''-1,234.5e1'' = Fin (- 12345)
   \<and> estNumber ''abc'' = Fin 0"
proof (intro conjI)
  show "sortValue newDate SortEstValue r = NumVal (estNumber (estValue r))"
    by (simp add: sortValue_def)
  show "estNumber s = (let n = parseFloat (filter (\<lambda>c. c \<noteq> CHR '','') s)
                    in if n = NaN then Fin 0 else n)"
    by (simp add: estNumber_def or_zero_def truthy_num_def Let_def)
  show "estNumber s \<noteq> NaN" by simp
  show "compareRows newDate SortEstValue Asc a b =
       (if num_lt (estNumber (estValue a)) (estNumber (estValue b)) then - 1
        else if num_lt (estNumber (estValue b)) (estNumber (estValue a)) then 1 else 0)"
    by (simp add: compareRows_estValue)
  show "sorted_wrt (\<lambda>a b. \<not> num_lt (estNumber (estValue b)) (estNumber (estValue a)))
        (processedData newDate (p\<lparr>sortField := Some SortEstValue, sortOrder := Some Asc\<rparr>) rows)"
    using sorted_by_estValue [of newDate Asc "filterRows p rows"]
    by (simp add: processedData_def compareRows_estValue_le)
  show "sorted_wrt (\<lambda>a b. \<not> num_lt (estNumber (estValue a)) (estNumber (estValue b)))
        (processedData newDate (p\<lparr>sortField := Some SortEstValue, sortOrder := Some Desc\<rparr>) rows)"
    using sorted_by_estValue [of newDate Desc "filterRows p rows"]
    by (simp add: processedData_def compareRows_estValue_le)
  have amounts: "estNumber ''1,200'' = Fin 1200" "estNumber ''300'' = Fin 300"
    by (simp_all add: estNumber_def or_zero_def truthy_num_def parseFloat_def unsignedDecimal_def
        isWhiteSpace_def isDigit_def digitsValue_def digitValue_def scale10_def exponentPart_def)
  show "map row_id (processedData newDate (sortedBy SortEstValue Asc) amountRows) = [Fin 2, Fin 1]"
    by (simp add: processedData_def filterRows_def sortedBy_def sampleProps_def amountRows_def
        compareRows_estValue amounts)
  show "parseFloat ''-1.5e2'' = Fin (- 150)"
    by (simp add: parseFloat_def unsignedDecimal_def isWhiteSpace_def isDigit_def
        digitsValue_def digitValue_def scale10_def exponentPart_def)
  show "parseFloat ''+.25E-1'' = Fin (1 / 40)"
    by (simp add: parseFloat_def unsignedDecimal_def isWhiteSpace_def isDigit_def
        digitsValue_def digitValue_def scale10_def exponentPart_def)
  show "estNumber ''-1,234.5e1'' = Fin (- 12345)"
    by (simp add: estNumber_def or_zero_def truthy_num_def parseFloat_def unsignedDecimal_def
        isWhiteSpace_def isDigit_def digitsValue_def digitValue_def scale10_def exponentPart_def)
  show "estNumber ''abc'' = Fin 0"
    by (simp add: estNumber_def or_zero_def truthy_num_def parseFloat_def unsignedDecimal_def
        isWhiteSpace_def isDigit_def digitsValue_def digitValue_def scale10_def exponentPart_def)
qed

section \<open>Editing a cell\<close>

lemma getField_setField_same [simp]: "getField (setField r f v) f = Some v"
  by (simp add: getField_def setField_def)

lemma getField_setField_other: "g \<noteq> f \<Longrightarrow> getField (setField r f v) g = getField r g"
  by (auto simp: getField_def setField_def)

lemma getField_setField: "getField (setField r f v) g = (if g = f then Some v else getField r g)"
  by (simp add: getField_setField_other)

lemma row_id_setField [simp]: "row_id (setField r f v) = row_id r"
  by (simp add: setField_def)

lemma cellString_setField_same [simp]: "cellString (setField r f v) f = v"
  by (simp add: cellString_def)

lemma cellString_setField_other: "g \<noteq> f \<Longrightarrow> cellString (setField r f v) g = cellString r g"
  by (simp add: cellString_def getField_setField_other)

text \<open>Writing a key's own value back leaves the row as it is.\<close>

lemma getField_builtin:
  "getField r ''jobRequest'' = Some (jobRequest r)"
  "getField r ''submitted'' = Some (submitted r)"
  "getField r ''status'' = Some (status r)"
  "getField r ''submitter'' = Some (submitter r)"
  "getField r ''url'' = Some (url r)"
  "getField r ''assigned'' = Some (assigned r)"
  "getField r ''priority'' = Some (priority r)"
  "getField r ''dueDate'' = Some (dueDate r)"
  "getField r ''estValue'' = Some (estValue r)"
  by (simp_all add: getField_def)

lemma setField_builtin_same:
  "setField r ''jobRequest'' (jobRequest r) = r"
  "setField r ''submitted'' (submitted r) = r"
  "setField r ''status'' (status r) = r"
  "setField r ''submitter'' (submitter r) = r"
  "setField r ''url'' (url r) = r"
  "setField r ''assigned'' (assigned r) = r"
  "setField r ''priority'' (priority r) = r"
  "setField r ''dueDate'' (dueDate r) = r"
  "setField r ''estValue'' (estValue r) = r"
  by (simp_all add: setField_def)

lemma setField_same:
  assumes "getField r f = Some v"
  shows "setField r f v = r"
proof (cases "f \<in> set fields_builtin")
  case True
  then have "f = ''jobRequest'' \<or> f = ''submitted'' \<or> f = ''status'' \<or> f = ''submitter''
      \<or> f = ''url'' \<or> f = ''assigned'' \<or> f = ''priority'' \<or> f = ''dueDate'' \<or> f = ''estValue''"
    by (simp add: fields_builtin_def)
  with assms show ?thesis
    by (auto simp: getField_builtin setField_builtin_same)
next
  case False
  then have "getField r f = extra r f" "setField r f v = r\<lparr>extra := (extra r)(f \<mapsto> v)\<rparr>"
    by (simp_all add: fields_builtin_def getField_def setField_def)
  with assms show ?thesis
    by (simp add: fun_upd_idem)
qed

text \<open>Writing back the stringified value of a cell changes no stringified value of the row.\<close>

lemma cellString_write_back: "cellString (setField r f (cellString r f)) g = cellString r g"
  by (cases "g = f") (simp_all add: cellString_setField_other)

lemma set_filterRows: "set (filterRows p rows) \<subseteq> set rows"
  by (auto simp: filterRows_def split: option.splits)

lemma set_processedData: "set (processedData newDate p rows) \<subseteq> set rows"
proof -
  have "set (processedData newDate p rows) = set (filterRows p rows)"
    using mset_processedData [of newDate p rows] by (metis set_mset_mset)
  then show ?thesis
    using set_filterRows [of p rows] by simp
qed

lemma distinct_ids_same_row:
  assumes "distinct (map row_id rows)" "r \<in> set rows" "r' \<in> set rows" "row_id r = row_id r'"
  shows "r = r'"
  using assms by (auto simp: distinct_map dest: inj_onD)

text \<open>
  The draft that a double click reads: with distinct ids it is the stringified value of the
  one row of the store that has the id.
\<close>

lemma getCellValue_present:
  assumes present: "\<exists>r \<in> set (processedData newDate p (data st)). strict_eq (row_id r) rowId"
    and distinct: "distinct (map row_id (data st))"
    and row: "r \<in> set (data st)" "strict_eq (row_id r) rowId"
  shows "getCellValue newDate p st rowId colIndex
           = cellString r (fieldAt (visibleFields p (customColumns st)) colIndex)"
proof (cases rule: find_row_cases [where rowId = rowId and rows = "processedData newDate p (data st)"])
  case absent
  with present show ?thesis by blast
next
  case (present r')
  then have "r' \<in> set (data st)"
    using set_processedData [of newDate p "data st"] by blast
  moreover from present row have "row_id r' = row_id r"
    by (simp add: strict_eq_def)
  ultimately have "r' = r"
    using distinct row by (blast intro: distinct_ids_same_row)
  with present show ?thesis
    by (simp add: getCellValue_def)
qed

text \<open>
  While the ids of the store are distinct, the round trip of an edit holds. Take a row id
  that a row of the processed view carries and a column index below the number of visible
  fields. A double click opens the edit session on that cell with the draft set to the
  stringified value the store holds for it. Saving with the draft unchanged leaves every
  row id and every stringified field value of the store as it was, and the store itself when
  the row has the key of the field. Saving after the draft was set to a string X leaves the
  row with X as its value in that field, leaves every other row untouched, and ends the
  session with the cell still selected.
\<close>

lemma edit_round_trip_distinct_ids:
  assumes present: "\<exists>r \<in> set (processedData newDate p (data st)). strict_eq (row_id r) rowId"
    and distinct: "distinct (map row_id (data st))"
    and cell: "colIndex < length (visibleFields p (customColumns st))"
  defines "field \<equiv> visibleFields p (customColumns st) ! colIndex"
  defines "begun \<equiv> handleCellDoubleClick newDate p rowId colIndex st"
  shows "editingCell begun = Some (rowId, colIndex)
     \<and> (\<exists>r \<in> set (data st). strict_eq (row_id r) rowId \<and> editValue begun = cellString r field)
     \<and> (\<forall>g. map (\<lambda>r. (row_id r, cellString r g)) (data (saveEdit p begun))
             = map (\<lambda>r. (row_id r, cellString r g)) (data st))
     \<and> ((\<forall>r \<in> set (data st). strict_eq (row_id r) rowId \<longrightarrow> getField r field \<noteq> None)
           \<longrightarrow> data (saveEdit p begun) = data st)
     \<and> (\<exists>r \<in> set (data (saveEdit p (setEditValue X begun))). strict_eq (row_id r) rowId)
     \<and> (\<forall>r \<in> set (data (saveEdit p (setEditValue X begun))).
           strict_eq (row_id r) rowId \<longrightarrow> getField r field = Some X \<and> cellString r field = X)
     \<and> (\<forall>i < length (data st). \<not> strict_eq (row_id (data st ! i)) rowId \<longrightarrow>
           data (saveEdit p (setEditValue X begun)) ! i = data st ! i)
     \<and> length (data (saveEdit p (setEditValue X begun))) = length (data st)
     \<and> editingCell (saveEdit p (setEditValue X begun)) = None
     \<and> selectedCell (saveEdit p (setEditValue X begun)) = Some (rowId, colIndex)"
proof -
  from present obtain r0 where r0: "r0 \<in> set (data st)" "strict_eq (row_id r0) rowId"
    using set_processedData [of newDate p "data st"] by blast
  have at: "fieldAt (visibleFields p (customColumns st)) colIndex = field"
    using cell by (simp add: fieldAt_def field_def)
  have draft: "editValue begun = cellString r0 field"
    using getCellValue_present [OF present distinct r0, of colIndex]
    by (simp add: begun_def handleCellDoubleClick_def at)
  have same_row: "r = r0" if "r \<in> set (data st)" "strict_eq (row_id r) rowId" for r
    using that r0 distinct by (auto simp: strict_eq_def intro: distinct_ids_same_row)
  have saved: "data (saveEdit p (setEditValue v begun))
      = map (\<lambda>r. if strict_eq (row_id r) rowId then setField r field v else r) (data st)" for v
    by (simp add: saveEdit_def setEditValue_def setCellValue_def begun_def
        handleCellDoubleClick_def at)
  have saved_unchanged: "data (saveEdit p begun)
      = map (\<lambda>r. if strict_eq (row_id r) rowId then setField r field (cellString r0 field) else r)
          (data st)"
    using draft
    by (simp add: saveEdit_def setCellValue_def begun_def handleCellDoubleClick_def at)
  have "editingCell begun = Some (rowId, colIndex)"
    by (simp add: begun_def handleCellDoubleClick_def)
  moreover have "\<exists>r \<in> set (data st). strict_eq (row_id r) rowId \<and> editValue begun = cellString r field"
    using r0 draft by blast
  moreover have "map (\<lambda>r. (row_id r, cellString r g)) (data (saveEdit p begun))
             = map (\<lambda>r. (row_id r, cellString r g)) (data st)" for g
    unfolding saved_unchanged map_map
  proof (rule map_cong [OF refl])
    fix r assume "r \<in> set (data st)"
    then show "((\<lambda>r. (row_id r, cellString r g)) \<circ>
            (\<lambda>r. if strict_eq (row_id r) rowId then setField r field (cellString r0 field) else r)) r
          = (row_id r, cellString r g)"
      using same_row [of r] by (simp add: cellString_write_back)
  qed
  moreover have "data (saveEdit p begun) = data st"
    if defined: "\<forall>r \<in> set (data st). strict_eq (row_id r) rowId \<longrightarrow> getField r field \<noteq> None"
  proof -
    from defined r0 obtain v where v: "getField r0 field = Some v" by blast
    then have "setField r0 field (cellString r0 field) = r0"
      by (simp add: cellString_def setField_same)
    then have "map (\<lambda>r. if strict_eq (row_id r) rowId
        then setField r field (cellString r0 field) else r) (data st) = map (\<lambda>r. r) (data st)"
      using same_row by (intro map_cong [OF refl]) auto
    then show ?thesis
      by (simp add: saved_unchanged)
  qed
  moreover have "\<exists>r \<in> set (data (saveEdit p (setEditValue X begun))). strict_eq (row_id r) rowId"
    unfolding saved using r0 by (intro bexI [of _ "setField r0 field X"]) auto
  moreover have "\<forall>r \<in> set (data (saveEdit p (setEditValue X begun))).
           strict_eq (row_id r) rowId \<longrightarrow> getField r field = Some X \<and> cellString r field = X"
    unfolding saved by auto
  moreover have "\<forall>i < length (data st). \<not> strict_eq (row_id (data st ! i)) rowId \<longrightarrow>
           data (saveEdit p (setEditValue X begun)) ! i = data st ! i"
    unfolding saved by simp
  moreover have "length (data (saveEdit p (setEditValue X begun))) = length (data st)"
    unfolding saved by simp
  moreover have "editingCell (saveEdit p (setEditValue X begun)) = None"
      "selectedCell (saveEdit p (setEditValue X begun)) = Some (rowId, colIndex)"
    by (simp_all add: saveEdit_def setEditValue_def setCellValue_def begun_def
        handleCellDoubleClick_def)
  ultimately show ?thesis by blast
qed

text \<open>
  Claim C6, at the input where the code breaks it. After the store was emptied, both new
  rows carry the id \<^verbatim>\<open>-Infinity\<close>; the first has the submitter foo, the second an empty
  one. A double click on the submitter cell of this id reads the first row, so the draft is
  foo also for the cell of the second row, and saving the draft unchanged writes foo into
  both rows: the stored value of the second row changes from the empty string to foo.
\<close>

theorem unchanged_commit_overwrites_twin_row:
  "map row_id (data twinState) = [NegInf, NegInf]
   \<and> map submitter (data twinState) = [''foo'', []]
   \<and> visibleFields sampleProps (customColumns twinState) ! 3 = ''submitter''
   \<and> editValue (handleCellDoubleClick sampleDate sampleProps NegInf 3 twinState) = ''foo''
   \<and> map submitter (data (saveEdit sampleProps
         (handleCellDoubleClick sampleDate sampleProps NegInf 3 twinState))) = [''foo'', ''foo'']"
proof (intro conjI)
  show "map row_id (data twinState) = [NegInf, NegInf]"
    by code_simp
  show "map submitter (data twinState) = [''foo'', []]"
    by code_simp
  show "visibleFields sampleProps (customColumns twinState) ! 3 = ''submitter''"
    by code_simp
  show "editValue (handleCellDoubleClick sampleDate sampleProps NegInf 3 twinState) = ''foo''"
    by code_simp
  show "map submitter (data (saveEdit sampleProps
         (handleCellDoubleClick sampleDate sampleProps NegInf 3 twinState))) = [''foo'', ''foo'']"
    by code_simp
qed

section \<open>Column indices and hidden fields\<close>

text \<open>
  An element of a filtered list that stands behind a dropped element of the original list
  is not the element at the same index of the original, when the original has no
  duplicates.
\<close>

lemma filter_nth_shifted:
  assumes distinct: "distinct xs"
    and dropped: "j \<le> i" "j < length xs" "\<not> P (xs ! j)"
    and inside: "i < length (filter P xs)"
  shows "filter P xs ! i \<noteq> xs ! i"
proof -
  have "length (filter P xs) \<le> length xs"
    by (rule length_filter_le)
  with inside have i: "i < length xs" by linarith
  let ?head = "take (Suc i) xs" and ?rest = "drop (Suc i) xs"
  have split: "filter P xs = filter P ?head @ filter P ?rest"
    by (metis append_take_drop_id filter_append)
  have "xs ! j \<in> set ?head"
    using dropped i by (auto simp: in_set_conv_nth intro!: exI [of _ j])
  then have "filter P ?head \<noteq> ?head"
    using dropped by (metis filter_id_conv)
  then have "length (filter P ?head) < length ?head"
    using length_filter_le [of P ?head] by (metis filter_True le_neq_implies_less length_filter_less linorder_not_less)
  then have short: "length (filter P ?head) \<le> i"
    using i by simp
  then have "filter P xs ! i = filter P ?rest ! (i - length (filter P ?head))"
    by (simp add: split nth_append)
  moreover have "i - length (filter P ?head) < length (filter P ?rest)"
    using inside short by (simp add: split)
  ultimately have "filter P xs ! i \<in> set (filter P ?rest)"
    by (metis nth_mem)
  then have "filter P xs ! i \<in> set ?rest"
    by simp
  moreover have "xs ! i \<in> set ?head"
    using i by (auto simp: in_set_conv_nth intro!: exI [of _ i])
  moreover have "set ?head \<inter> set ?rest = {}"
    using distinct by (metis append_take_drop_id distinct_append)
  ultimately show ?thesis by auto
qed

text \<open>
  The element at an index of a filtered list is an element of the original list, at the
  index that exceeds the given one by the number of elements dropped before it.
\<close>

lemma filter_nth_index:
  assumes "i < length (filter P xs)"
  shows "\<exists>k < length xs. filter P xs ! i = xs ! k \<and> P (xs ! k)
     \<and> k = i + length (filter (\<lambda>x. \<not> P x) (take k xs))"
  using assms
proof (induction xs arbitrary: i)
  case Nil
  then show ?case by simp
next
  case (Cons x xs)
  show ?case
  proof (cases "P x")
    case True
    show ?thesis
    proof (cases i)
      case 0
      with True show ?thesis
        by (intro exI [of _ 0]) simp
    next
      case (Suc i')
      with True Cons.prems have "i' < length (filter P xs)" by simp
      from Cons.IH [OF this] obtain k where k: "k < length xs" "filter P xs ! i' = xs ! k"
        "P (xs ! k)" "k = i' + length (filter (\<lambda>x. \<not> P x) (take k xs))"
        by blast
      with True Suc show ?thesis
        by (intro exI [of _ "Suc k"]) simp
    qed
  next
    case False
    with Cons.prems have "i < length (filter P xs)" by simp
    from Cons.IH [OF this] obtain k where k: "k < length xs" "filter P xs ! i = xs ! k"
      "P (xs ! k)" "k = i + length (filter (\<lambda>x. \<not> P x) (take k xs))"
      by blast
    with False show ?thesis
      by (intro exI [of _ "Suc k"]) simp
  qed
qed

text \<open>
  Claim C9, as amended. The cell and column mutations take their field from the visible
  fields, the registry order \<^verbatim>\<open>allFields\<close> with the hidden fields removed:
  \<^verbatim>\<open>clearCell\<close>, \<^verbatim>\<open>clearColumn\<close> and the commit of an edit at column \<open>i\<close>
  write the key at index \<open>i\<close> of that list (for the rows they address) and no other
  key. This key is not hidden, and it is the registry field whose index is \<open>i\<close> plus the
  number of hidden fields before it. When nothing is hidden it is the registry field at
  index \<open>i\<close>; when no key occurs twice in the registry and a hidden field stands at
  or before index \<open>i\<close>, it is a different field.
\<close>

theorem mutations_use_visible_index:
  assumes "i < length (visibleFields p (customColumns st))"
  defines "field \<equiv> filter (\<lambda>f. f \<notin> set (hiddenFields p)) (allFields (customColumns st)) ! i"
  shows "data (clearCell p rowId i st)
           = map (\<lambda>r. if strict_eq (row_id r) rowId then setField r field [] else r) (data st)
     \<and> data (clearColumn p i st) = map (\<lambda>r. setField r field []) (data st)
     \<and> data (saveEdit p (st\<lparr>editingCell := Some (rowId, i), editValue := v\<rparr>))
           = map (\<lambda>r. if strict_eq (row_id r) rowId then setField r field v else r) (data st)
     \<and> (\<forall>r g. getField (setField r field v) g = (if g = field then Some v else getField r g))
     \<and> (\<exists>k < length (allFields (customColumns st)).
           field = allFields (customColumns st) ! k \<and> field \<notin> set (hiddenFields p)
           \<and> k = i + length (filter (\<lambda>f. f \<in> set (hiddenFields p))
                            (take k (allFields (customColumns st)))))
     \<and> (hiddenFields p = [] \<longrightarrow> field = allFields (customColumns st) ! i)
     \<and> (distinct (allFields (customColumns st))
          \<and> (\<exists>j \<le> i. j < length (allFields (customColumns st))
                \<and> allFields (customColumns st) ! j \<in> set (hiddenFields p))
          \<longrightarrow> field \<noteq> allFields (customColumns st) ! i)"
proof -
  have at: "fieldAt (visibleFields p (customColumns st)) i = field"
    using assms(1) by (simp add: fieldAt_def field_def visibleFields_def)
  have "data (clearCell p rowId i st)
           = map (\<lambda>r. if strict_eq (row_id r) rowId then setField r field [] else r) (data st)"
    by (simp add: clearCell_def at)
  moreover have "data (clearColumn p i st) = map (\<lambda>r. setField r field []) (data st)"
    by (simp add: clearColumn_def at)
  moreover have "data (saveEdit p (st\<lparr>editingCell := Some (rowId, i), editValue := v\<rparr>))
           = map (\<lambda>r. if strict_eq (row_id r) rowId then setField r field v else r) (data st)"
    using at by (simp add: saveEdit_def setCellValue_def)
  moreover have "\<forall>r g. getField (setField r field v) g = (if g = field then Some v else getField r g)"
    by (simp add: getField_setField)
  moreover have "\<exists>k < length (allFields (customColumns st)).
           field = allFields (customColumns st) ! k \<and> field \<notin> set (hiddenFields p)
           \<and> k = i + length (filter (\<lambda>f. f \<in> set (hiddenFields p))
                            (take k (allFields (customColumns st))))"
  proof -
    from assms(1)
    have "i < length (filter (\<lambda>f. f \<notin> set (hiddenFields p)) (allFields (customColumns st)))"
      by (simp add: visibleFields_def)
    from filter_nth_index [OF this] show ?thesis
      unfolding field_def by force
  qed
  moreover have "hiddenFields p = [] \<longrightarrow> field = allFields (customColumns st) ! i"
    by (simp add: field_def)
  moreover have "field \<noteq> allFields (customColumns st) ! i"
    if "distinct (allFields (customColumns st))"
      and "\<exists>j \<le> i. j < length (allFields (customColumns st))
                \<and> allFields (customColumns st) ! j \<in> set (hiddenFields p)"
  proof -
    from that(2) obtain j where j: "j \<le> i" "j < length (allFields (customColumns st))"
      "\<not> (allFields (customColumns st) ! j \<notin> set (hiddenFields p))"
      by blast
    from assms(1) have "i < length (filter (\<lambda>f. f \<notin> set (hiddenFields p)) (allFields (customColumns st)))"
      by (simp add: visibleFields_def)
    with that(1) j show ?thesis
      unfolding field_def by (intro filter_nth_shifted)
  qed
  ultimately show ?thesis by blast
qed

theorem mutations_use_visible_index_witness:
  "0 < length (visibleFields (sampleProps\<lparr>hiddenFields := [''jobRequest'']\<rparr>) (customColumns sampleState))
   \<and> distinct (allFields (customColumns sampleState))
   \<and> (\<exists>j \<le> 0. j < length (allFields (customColumns sampleState))
         \<and> allFields (customColumns sampleState) ! j
             \<in> set (hiddenFields (sampleProps\<lparr>hiddenFields := [''jobRequest'']\<rparr>)))
   \<and> allFields (customColumns sampleState) ! 0 = ''jobRequest''
   \<and> data (clearColumn sampleProps 0 sampleState)
       = map (\<lambda>r. setField r ''jobRequest'' []) (data sampleState)
   \<and> data (clearColumn (sampleProps\<lparr>hiddenFields := [''jobRequest'']\<rparr>) 0 sampleState)
       = map (\<lambda>r. setField r ''submitted'' []) (data sampleState)"
proof -
  let ?hide = "sampleProps\<lparr>hiddenFields := [''jobRequest'']\<rparr>"
  have all: "allFields (customColumns sampleState) = fields_builtin"
    by (simp add: allFields_def sampleState_def)
  have len: "0 < length (visibleFields ?hide (customColumns sampleState))"
    and len0: "0 < length (visibleFields sampleProps (customColumns sampleState))"
    by (simp_all add: visibleFields_def all fields_builtin_def sampleProps_def)
  have distinct: "distinct (allFields (customColumns sampleState))"
    by (simp add: all fields_builtin_def)
  have hidden: "\<exists>j \<le> 0. j < length (allFields (customColumns sampleState))
         \<and> allFields (customColumns sampleState) ! j \<in> set (hiddenFields ?hide)"
    by (simp add: all fields_builtin_def)
  have first: "allFields (customColumns sampleState) ! 0 = ''jobRequest''"
    by (simp add: all fields_builtin_def)
  have shown: "filter (\<lambda>f. f \<notin> set (hiddenFields sampleProps)) (allFields (customColumns sampleState)) ! 0
      = ''jobRequest''"
    and hid: "filter (\<lambda>f. f \<notin> set (hiddenFields ?hide)) (allFields (customColumns sampleState)) ! 0
      = ''submitted''"
    by (simp_all add: all fields_builtin_def sampleProps_def)
  from mutations_use_visible_index [OF len0] shown
  have "data (clearColumn sampleProps 0 sampleState)
       = map (\<lambda>r. setField r ''jobRequest'' []) (data sampleState)"
    by simp
  moreover from mutations_use_visible_index [OF len] hid
  have "data (clearColumn ?hide 0 sampleState)
       = map (\<lambda>r. setField r ''submitted'' []) (data sampleState)"
    by simp
  ultimately show ?thesis
    using len distinct hidden first by blast
qed

text \<open>
  The claim as stated fails when a key occurs twice in the registry. With two custom columns
  named Notes and \<^verbatim>\<open>jobRequest\<close> hidden, a hidden field stands before column 9, and
  column 9 still names the key \<^verbatim>\<open>notes\<close>, as it does when nothing is hidden:
  \<^verbatim>\<open>clearColumn(9)\<close> has the same effect in both cases.
\<close>

theorem duplicate_key_same_target_counterexample:
  "allFields (customColumns notesState) ! 0 = ''jobRequest''
   \<and> hiddenFields hideJobRequest = [''jobRequest'']
   \<and> 9 < length (visibleFields hideJobRequest (customColumns notesState))
   \<and> visibleFields hideJobRequest (customColumns notesState) ! 9 = ''notes''
   \<and> visibleFields sampleProps (customColumns notesState) ! 9 = ''notes''
   \<and> allFields (customColumns notesState) ! 9 = ''notes''
   \<and> data (clearColumn hideJobRequest 9 notesState) = data (clearColumn sampleProps 9 notesState)"
proof -
  have fields: "allFields (customColumns notesState) = fields_builtin @ [''notes'', ''notes'']"
    by (simp add: allFields_def notesState_def fieldName_def toLowerCase_def toLowerChar_def
        isWhiteSpace_def)
  have hidden: "visibleFields hideJobRequest (customColumns notesState)
      = tl fields_builtin @ [''notes'', ''notes'']"
    by (simp add: visibleFields_def fields hideJobRequest_def sampleProps_def fields_builtin_def)
  have shown: "visibleFields sampleProps (customColumns notesState)
      = fields_builtin @ [''notes'', ''notes'']"
    by (simp add: visibleFields_def fields sampleProps_def)
  have at: "fieldAt (visibleFields hideJobRequest (customColumns notesState)) 9 = ''notes''"
    "fieldAt (visibleFields sampleProps (customColumns notesState)) 9 = ''notes''"
    by (simp_all add: fieldAt_def hidden shown fields_builtin_def)
  have same: "data (clearColumn hideJobRequest 9 notesState)
      = data (clearColumn sampleProps 9 notesState)"
    by (simp add: clearColumn_def at)
  have "allFields (customColumns notesState) ! 0 = ''jobRequest''"
    and "allFields (customColumns notesState) ! 9 = ''notes''"
    by (simp_all add: fields fields_builtin_def)
  moreover have "hiddenFields hideJobRequest = [''jobRequest'']"
    by (simp add: hideJobRequest_def)
  moreover have "9 < length (visibleFields hideJobRequest (customColumns notesState))"
    and "visibleFields hideJobRequest (customColumns notesState) ! 9 = ''notes''"
    by (simp_all add: hidden fields_builtin_def)
  moreover have "visibleFields sampleProps (customColumns notesState) ! 9 = ''notes''"
    by (simp add: shown fields_builtin_def)
  ultimately show ?thesis
    using same by blast
qed

section \<open>Deleting the selected row\<close>





end
